theory Spec2Isabelle
  imports Main "HOL-Library.AList"
begin

section \<open>Go values used by the engine\<close>

text \<open>
  Go strings are byte sequences: \<^typ>\<open>string\<close> (a list of 8-bit characters). Go's
  \<open>int\<close> positions and widths are \<^typ>\<open>int\<close>, runes are \<^typ>\<open>int\<close> code points.
  A slice expression \<open>s[a:b]\<close> panics unless \<open>0 \<le> a \<le> b \<le> len(s)\<close>; the model
  returns \<open>None\<close> there.
\<close>

definition slice :: "string \<Rightarrow> int \<Rightarrow> int \<Rightarrow> string option" where
  "slice s a b =
     (if 0 \<le> a \<and> a \<le> b \<and> b \<le> int (length s)
      then Some (take (nat (b - a)) (drop (nat a) s)) else None)"

definition RuneError :: int where
  "RuneError = 65533"

text \<open>
  \<open>utf8.DecodeRuneInString\<close> of the Go standard library, which the character-class
  matchers and \<open>charclass.Parse\<close> call: the first byte selects the encoded size and the
  range the second byte must lie in; an empty string gives \<open>(RuneError, 0)\<close>, any
  malformed or truncated encoding gives \<open>(RuneError, 1)\<close>.
\<close>

definition DecodeRuneInString :: "string \<Rightarrow> int \<times> int" where
  "DecodeRuneInString s =
     (case s of
        [] \<Rightarrow> (RuneError, 0)
      | c0 # _ \<Rightarrow>
          (let b0 = (of_char c0 :: nat) in
           if b0 < 128 then (int b0, 1)
           else if b0 < 194 \<or> 244 < b0 then (RuneError, 1)
           else
             (let sz = (if b0 < 224 then 2 else if b0 < 240 then 3 else (4::nat));
                  lo = (if b0 = 224 then 160 else if b0 = 240 then 144 else (128::nat));
                  hi = (if b0 = 237 then 159 else if b0 = 244 then 143 else (191::nat))
              in if length s < sz then (RuneError, 1)
                 else
                   (let b1 = (of_char (s ! 1) :: nat) in
                    if b1 < lo \<or> hi < b1 then (RuneError, 1)
                    else if sz \<le> 2 then (int ((b0 mod 32) * 64 + b1 mod 64), 2)
                    else
                      (let b2 = (of_char (s ! 2) :: nat) in
                       if b2 < 128 \<or> 191 < b2 then (RuneError, 1)
                       else if sz \<le> 3
                         then (int ((b0 mod 16) * 4096 + (b1 mod 64) * 64 + b2 mod 64), 3)
                       else
                         (let b3 = (of_char (s ! 3) :: nat) in
                          if b3 < 128 \<or> 191 < b3 then (RuneError, 1)
                          else (int ((b0 mod 8) * 262144 + (b1 mod 64) * 4096
                                     + (b2 mod 64) * 64 + b3 mod 64), 4)))))))"

text \<open>
  The rest of the standard library the code calls is taken as a parameter: the Unicode
  category predicates and \<open>unicode.Is\<close> (tables of the \<open>unicode\<close> package), and the
  quoting functions of \<open>strconv\<close>. \<open>UnquoteChar\<close> returns the decoded rune and the
  unread tail, or \<open>None\<close> for a syntax error; \<open>RuneString\<close> is the verb \<open>%c\<close> of
  \<open>fmt\<close>.
\<close>

record RangeTable =
  R16 :: "(int \<times> int) list"
  R32 :: "(int \<times> int) list"

record golib =
  IsLetter :: "int \<Rightarrow> bool"
  IsDigit :: "int \<Rightarrow> bool"
  IsNumber :: "int \<Rightarrow> bool"
  IsSpace :: "int \<Rightarrow> bool"
  IsLower :: "int \<Rightarrow> bool"
  IsUpper :: "int \<Rightarrow> bool"
  IsPunct :: "int \<Rightarrow> bool"
  IsPrint :: "int \<Rightarrow> bool"
  IsGraphic :: "int \<Rightarrow> bool"
  IsControl :: "int \<Rightarrow> bool"
  unicode_Is :: "RangeTable \<Rightarrow> int \<Rightarrow> bool"
  Quote :: "string \<Rightarrow> string"
  QuoteRune :: "int \<Rightarrow> string"
  UnquoteChar :: "string \<Rightarrow> (int \<times> string) option"
  RuneString :: "int \<Rightarrow> string"

section \<open>Character classes (parser/charclass)\<close>

text \<open>
  \<open>CharClass.Map\<close> is a Go \<open>map[rune]bool\<close> that may be nil: an optional association
  list read as a map. \<open>RangeTable\<close> is a pointer that may be nil; every range is stored
  with stride 1, so a range is its \<open>(Lo, Hi)\<close> pair.
\<close>

record CharClass =
  Map :: "(int \<times> bool) list option"
  RangeTable :: "RangeTable option"
  Negated :: bool
  Special :: string

definition specialClasses :: "(string \<times> string) list" where
  "specialClasses =
     [(''[:alpha:]'', ''IsLetter''), (''[:digit:]'', ''IsNumber''),
      (''[:space:]'', ''IsSpace''), (''[:lower:]'', ''IsLower''),
      (''[:upper:]'', ''IsUpper''), (''[:punct:]'', ''IsPunct''),
      (''[:print:]'', ''IsPrint''), (''[:graph:]'', ''IsGraphic''),
      (''[:cntrl:]'', ''IsControl''), (''[:alnum:]'', ''[:alnum:]''),
      (''[:any:]'', ''[:any:]'')]"

definition runeToString :: "golib \<Rightarrow> int \<Rightarrow> string" where
  "runeToString E c = butlast (tl (QuoteRune E c))"

definition mapKeys :: "(int \<times> bool) list option \<Rightarrow> int list" where
  "mapKeys m = (case m of None \<Rightarrow> [] | Some kvs \<Rightarrow> remdups (map fst kvs))"

definition mapGet :: "(int \<times> bool) list option \<Rightarrow> int \<Rightarrow> bool" where
  "mapGet m c =
     (case m of
        None \<Rightarrow> False
      | Some kvs \<Rightarrow> (case map_of kvs c of None \<Rightarrow> False | Some b \<Rightarrow> b))"

definition rangeStrings :: "golib \<Rightarrow> (int \<times> int) list \<Rightarrow> string list" where
  "rangeStrings E rs =
     concat (map (\<lambda>(lo, hi). [runeToString E lo, ''-'', runeToString E hi]) rs)"

text \<open>
  \<open>CharClass.String\<close>. For a special class the loop over \<open>specialClasses\<close> returns
  the first key whose value is \<open>cc.Special\<close> (the values are distinct, so the map's
  iteration order does not matter).
\<close>

definition CharClass_String :: "golib \<Rightarrow> CharClass \<Rightarrow> string" where
  "CharClass_String E cc =
     (let ret0 = (if Negated cc then [''^''] else []);
          found = (if Special cc \<noteq> [] then find (\<lambda>(k, v). Special cc = v) specialClasses
                   else None)
      in case found of
           Some (k, v) \<Rightarrow> k
         | None \<Rightarrow>
             (let runes = sort (filter (\<lambda>c. \<not> (c = 45 \<or> c = 94)) (mapKeys (Map cc)));
                  ret1 = ret0 @ map (\<lambda>c. if c = 93 then [CHR 0x5C, CHR '']''] else runeToString E c) runes;
                  ret2 = (case RangeTable cc of
                            None \<Rightarrow> ret1
                          | Some t \<Rightarrow> ret1 @ rangeStrings E (R16 t) @ rangeStrings E (R32 t));
                  ret3 = (if mapGet (Map cc) 94 then ret2 @ [''^''] else ret2);
                  ret4 = (if mapGet (Map cc) 45 then ret3 @ [''-''] else ret3)
              in concat ret4))"

text \<open>
  \<open>charclass.Parse\<close>. \<open>CCPanic\<close> is a slice expression out of range. The scanning
  loop advances by the width \<open>strconv.UnquoteChar\<close> reports for an escape, so with the
  library as a parameter it is a partial function. \<open>sort.Slice\<close> orders the ranges by
  \<open>Lo\<close>; the model sorts stably, the order of ranges with equal \<open>Lo\<close> is the
  library's.
\<close>

datatype ccerror =
    EmptyCharClass
  | UnknownCharClass string
  | BadRune int string
  | BadEscape int string
  | InvalidInterval int int string
  | AcrossBoundary string int int

datatype ccres = CCPanic | CCErr ccerror | CCOk CharClass

definition mapSet :: "(int \<times> bool) list option \<Rightarrow> int \<Rightarrow> (int \<times> bool) list option" where
  "mapSet m c = Some (AList.update c True (case m of None \<Rightarrow> [] | Some kvs \<Rightarrow> kvs))"

definition addR16 :: "CharClass \<Rightarrow> int \<Rightarrow> int \<Rightarrow> CharClass" where
  "addR16 cc lo hi =
     (let t = (case RangeTable cc of None \<Rightarrow> \<lparr>R16 = [], R32 = []\<rparr> | Some t \<Rightarrow> t)
      in cc\<lparr>RangeTable := Some (t\<lparr>R16 := R16 t @ [(lo mod 65536, hi mod 65536)]\<rparr>)\<rparr>)"

definition addR32 :: "CharClass \<Rightarrow> int \<Rightarrow> int \<Rightarrow> CharClass" where
  "addR32 cc lo hi =
     (let t = (case RangeTable cc of None \<Rightarrow> \<lparr>R16 = [], R32 = []\<rparr> | Some t \<Rightarrow> t)
      in cc\<lparr>RangeTable := Some (t\<lparr>R32 := R32 t @ [(lo mod 4294967296, hi mod 4294967296)]\<rparr>)\<rparr>)"

definition finishParse :: "int \<Rightarrow> CharClass \<Rightarrow> CharClass" where
  "finishParse lastRune cc =
     (let cc1 = (if lastRune \<noteq> 0 then cc\<lparr>Map := mapSet (Map cc) lastRune\<rparr> else cc)
      in case RangeTable cc1 of
           None \<Rightarrow> cc1
         | Some t \<Rightarrow>
             cc1\<lparr>RangeTable := Some \<lparr>R16 = sort_key fst (R16 t), R32 = sort_key fst (R32 t)\<rparr>\<rparr>)"

text \<open>
  The escape step of the loop: for a backslash that is not the lastRune byte, the rune and
  width of the escape; otherwise the decoded rune and width unchanged.
\<close>

definition unescape ::
  "golib \<Rightarrow> string \<Rightarrow> int \<Rightarrow> string \<Rightarrow> int \<Rightarrow> int \<Rightarrow> ccerror + (int \<times> int)" where
  "unescape E arg pos rest r w =
     (if r = 92 \<and> pos + 1 < int (length arg)
      then (let c = rest ! 1 in
            if c = CHR ''^'' \<or> c = CHR ''-'' \<or> c = CHR ''['' \<or> c = CHR '']''
            then Inr (int (of_char c), 2)
            else (case UnquoteChar E rest of
                    None \<Rightarrow> Inl (BadEscape pos arg)
                  | Some (val, tail) \<Rightarrow>
                      Inr (val, int (length arg) - pos - int (length tail))))
      else Inr (r, w))"

partial_function (option) parseLoop ::
  "golib \<Rightarrow> string \<Rightarrow> int \<Rightarrow> int \<Rightarrow> int \<Rightarrow> CharClass \<Rightarrow> ccres option" where
  "parseLoop E arg pos lastRune startRune ret =
     (if \<not> pos < int (length arg) then Some (CCOk (finishParse lastRune ret))
      else
        (case slice arg pos (int (length arg)) of
           None \<Rightarrow> Some CCPanic
         | Some rest \<Rightarrow>
             (case DecodeRuneInString rest of (r, w) \<Rightarrow>
                if r = RuneError then Some (CCErr (BadRune pos arg))
                else if r = 45 \<and> pos \<noteq> 0 \<and> pos + w \<noteq> int (length arg)
                  then parseLoop E arg (pos + w) 0 lastRune ret
                else
                  (case unescape E arg pos rest r w of
                     Inl e \<Rightarrow> Some (CCErr e)
                   | Inr (r', w') \<Rightarrow>
                       if startRune \<noteq> 0
                       then (if r' \<le> startRune then Some (CCErr (InvalidInterval startRune r' arg))
                             else if 65536 \<le> startRune
                               then parseLoop E arg (pos + w') 0 0 (addR32 ret startRune r')
                             else if r' < 65536
                               then parseLoop E arg (pos + w') 0 0 (addR16 ret startRune r')
                             else Some (CCErr (AcrossBoundary arg startRune r')))
                       else parseLoop E arg (pos + w') r' startRune
                              (if lastRune \<noteq> 0 then ret\<lparr>Map := mapSet (Map ret) lastRune\<rparr>
                               else ret)))))"

declare parseLoop.simps [code]

fun charclass_Parse :: "golib \<Rightarrow> string \<Rightarrow> ccres option" where
  "charclass_Parse E [] = Some (CCErr EmptyCharClass)"
| "charclass_Parse E (c # cs) =
     (if c = CHR ''^''
      then (if cs = []
            then Some (CCOk \<lparr>Map = Some [(94, True)], RangeTable = None, Negated = False,
                            Special = []\<rparr>)
            else (let skip = 1 + length (takeWhile (\<lambda>x. x = CHR ''^'') cs) in
                  case charclass_Parse E cs of
                    Some (CCOk r) \<Rightarrow>
                      Some (CCOk (r\<lparr>Negated := True,
                                     Map := (if 1 < skip then mapSet (Map r) 94 else Map r)\<rparr>))
                  | x \<Rightarrow> x))
      else if c = CHR ''['' \<and> last (c # cs) = CHR '']''
        then (case map_of specialClasses (c # cs) of
                None \<Rightarrow> Some (CCErr (UnknownCharClass (c # cs)))
              | Some special \<Rightarrow>
                  Some (CCOk \<lparr>Map = None, RangeTable = None, Negated = False,
                              Special = special\<rparr>))
      else parseLoop E (c # cs) 0 0 0
             \<lparr>Map = None, RangeTable = None, Negated = False, Special = []\<rparr>)"

section \<open>Grammar model (parser2)\<close>

datatype Term =
    TParens "Term list list"
  | TNegPred Term
  | TPred Term
  | TSpecial Term int
  | TCapture "Term list list"
  | TCharClass CharClass
  | TLiteral string
  | TIdent string

type_synonym RHS = "Term list list"

record ParserOptions =
  IgnoreUnconsumedTail :: bool
  SkipEmptyNodes :: bool
  LongErrorMessage :: bool

record Rule =
  Ident :: string
  RHS :: RHS

record Grammar =
  Rules :: "string \<rightharpoonup> Rule"
  RuleNames :: "string list"
  ParserOptions :: ParserOptions

text \<open>
  Errors are kept as structured values, one constructor per \<open>fmt.Errorf\<close> site, with
  the arguments of the format string as fields.
\<close>

datatype perror =
    ExpectingGot string string
  | ExpectingLiteral string string
  | ExpectingCharGotEOF
  | ExpectingUtf8GotRuneError
  | CharNoMatch int CharClass
  | CaptureNoTopNode
  | NegPredMatched
  | RhsError RHS "(string \<times> perror) list" "perror option"
  | NoRules
  | MissingTopRule string
  | MatchedZero "perror option"
  | Unconsumed string "perror option"
  | NoSyntaxTree nat

datatype Node =
  Node (Label: string) (Text: string) (Content: "string list") (Pos: int) (Len: int)
       (Row: int) (Col: int) (Children: "Node list") (Err: "perror option")
       (Annotations: "(string \<times> string) list")
       (TreeAnnotations: "(string \<times> Node) list")

definition newNode :: "string \<Rightarrow> int \<Rightarrow> Node" where
  "newNode l p = Node l [] [] p 0 0 0 [] None [] []"

definition setChildren :: "Node \<Rightarrow> Node list \<Rightarrow> Node" where
  "setChildren n cs =
     Node (Label n) (Text n) (Content n) (Pos n) (Len n) (Row n) (Col n) cs (Err n)
       (Annotations n) (TreeAnnotations n)"

definition setText :: "Node \<Rightarrow> string \<Rightarrow> Node" where
  "setText n t =
     Node (Label n) t (Content n) (Pos n) (Len n) (Row n) (Col n) (Children n) (Err n)
       (Annotations n) (TreeAnnotations n)"

definition setLenErr :: "Node \<Rightarrow> int \<Rightarrow> perror option \<Rightarrow> Node" where
  "setLenErr n w e =
     Node (Label n) (Text n) (Content n) (Pos n) w (Row n) (Col n) (Children n) e
       (Annotations n) (TreeAnnotations n)"

text \<open>
  \<open>Result\<close> is the parse state. The memo table \<open>map[int]map[*Rule]*Node\<close> is a map
  from (position, rule) to the cached node; a rule pointer is identified with the
  rule's \<open>Ident\<close>, under which \<open>New\<close> registers it (duplicates are rejected there).
  The node stack is kept with its top first. Nodes are values: a node is only mutated
  while it is on the stack, and it enters the memo table and a children list after
  it has been popped.
\<close>

record Result =
  Grammar :: Grammar
  Source :: string
  Tree :: "Node option"
  memo :: "(int \<times> string) \<rightharpoonup> Node"
  nodeStack :: "Node list"
  fyiError :: "perror option"
  rowCol :: "int \<rightharpoonup> (int \<times> int)"

text \<open>
  What a matcher call gives: \<open>Ret w err r\<close> is a return of \<open>(w, err)\<close> leaving the
  state \<open>r\<close>; \<open>Exit\<close> is a panic or \<open>log.Exitf\<close>. A call that does not return at all
  is \<open>None\<close>.
\<close>

datatype hres = Exit | Ret int "perror option" Result

type_synonym handler = "Result \<Rightarrow> int \<Rightarrow> hres option"

definition TopNode :: "Result \<Rightarrow> Node option" where
  "TopNode r = (case nodeStack r of [] \<Rightarrow> None | n # _ \<Rightarrow> Some n)"

definition setTopChildren :: "Result \<Rightarrow> Node list \<Rightarrow> Result option" where
  "setTopChildren r cs =
     (case nodeStack r of
        [] \<Rightarrow> None
      | n # ns \<Rightarrow> Some (r\<lparr>nodeStack := setChildren n cs # ns\<rparr>))"

definition Attach :: "Result \<Rightarrow> Node \<Rightarrow> Result option" where
  "Attach r n =
     (if SkipEmptyNodes (ParserOptions (Grammar r)) \<and>
         (Text n = [] \<and> Children n = [] \<and> Annotations n = [] \<and>
          TreeAnnotations n = [] \<and> nodeStack r \<noteq> [])
      then Some r
      else
        (case nodeStack r of
           [] \<Rightarrow> (if Tree r \<noteq> None then None else Some (r\<lparr>Tree := Some n\<rparr>))
         | p # ns \<Rightarrow> Some (r\<lparr>nodeStack := setChildren p (Children p @ [n]) # ns\<rparr>)))"

text \<open>
  \<open>Result.apply\<close>, with the rule's compiled matcher \<open>h\<close> (the field \<open>ru.handler\<close>)
  as an argument.
\<close>

definition Result_apply :: "handler \<Rightarrow> string \<Rightarrow> Result \<Rightarrow> int \<Rightarrow> hres option" where
  "Result_apply h ident r pos =
     (case memo r (pos, ident) of
        Some n \<Rightarrow>
          (case Err n of
             Some e \<Rightarrow> Some (Ret (Len n) (Some e) r)
           | None \<Rightarrow>
               (case Attach r n of
                  None \<Rightarrow> Some Exit
                | Some r' \<Rightarrow> Some (Ret (Len n) None r')))
      | None \<Rightarrow>
          (case h (r\<lparr>nodeStack := newNode ident pos # nodeStack r\<rparr>) pos of
             None \<Rightarrow> None
           | Some Exit \<Rightarrow> Some Exit
           | Some (Ret w hErr r2) \<Rightarrow>
               (case nodeStack r2 of
                  [] \<Rightarrow> Some Exit
                | n # ns \<Rightarrow>
                    (let n' = setLenErr n w hErr;
                         r3 = r2\<lparr>nodeStack := ns, memo := (memo r2)((pos, ident) \<mapsto> n')\<rparr>
                     in case Attach r3 n' of
                          None \<Rightarrow> Some Exit
                        | Some r4 \<Rightarrow> Some (Ret w hErr r4)))))"

section \<open>Compiled matchers\<close>

text \<open>
  \<open>ShortString\<close> of a term, a group and a right-hand side: the keys of the error map
  of an ordered choice. \<open>strings.Join\<close> is written out.
\<close>

fun join :: "string list \<Rightarrow> string \<Rightarrow> string" where
  "join [] sep = []"
| "join [x] sep = x"
| "join (x # y # ys) sep = x @ sep @ join (y # ys) sep"

fun Term_ShortString :: "golib \<Rightarrow> Term \<Rightarrow> string" where
  "Term_ShortString E (TParens rhs) =
     ''('' @ join (map (\<lambda>ts. join (map (Term_ShortString E) ts) '' '') rhs) '' / '' @ '')''"
| "Term_ShortString E (TNegPred t) = ''!'' @ Term_ShortString E t"
| "Term_ShortString E (TPred t) = ''&'' @ Term_ShortString E t"
| "Term_ShortString E (TSpecial t c) = Term_ShortString E t @ RuneString E c"
| "Term_ShortString E (TCapture rhs) =
     ''<'' @ join (map (\<lambda>ts. join (map (Term_ShortString E) ts) '' '') rhs) '' / '' @ ''>''"
| "Term_ShortString E (TCharClass cc) = ''['' @ CharClass_String E cc @ '']''"
| "Term_ShortString E (TLiteral l) = (if l \<noteq> [] then Quote E l else ''<nil term>'')"
| "Term_ShortString E (TIdent i) = (if i \<noteq> [] then i else ''<nil term>'')"

definition groupToString :: "golib \<Rightarrow> Term list \<Rightarrow> string" where
  "groupToString E terms = join (map (Term_ShortString E) terms) '' ''"

text \<open>\<open>makeLiteralHandler\<close>.\<close>

definition makeLiteralHandler :: "string \<Rightarrow> handler" where
  "makeLiteralHandler literal = (\<lambda>r pos.
     if int (length (Source r)) - pos < int (length literal)
     then (case slice (Source r) pos (int (length (Source r))) of
             None \<Rightarrow> Some Exit
           | Some got \<Rightarrow> Some (Ret 0 (Some (ExpectingGot literal got)) r))
     else (case slice (Source r) pos (pos + int (length literal)) of
             None \<Rightarrow> Some Exit
           | Some next \<Rightarrow>
               if next \<noteq> literal then Some (Ret 0 (Some (ExpectingLiteral literal next)) r)
               else Some (Ret (int (length literal)) None r)))"

text \<open>
  \<open>makeCharClassHandler\<close>: one closure for a class with a \<open>Special\<close> name, one for a
  class of scalars and ranges.
\<close>

definition specialMatch :: "golib \<Rightarrow> string \<Rightarrow> int \<Rightarrow> bool" where
  "specialMatch E sp c =
     (if sp = ''[:any:]'' then True
      else if sp = ''[:alnum:]'' then IsLetter E c \<or> IsDigit E c
      else if sp = ''IsLetter'' then IsLetter E c
      else if sp = ''IsNumber'' then IsNumber E c
      else if sp = ''IsSpace'' then IsSpace E c
      else if sp = ''IsLower'' then IsLower E c
      else if sp = ''IsUpper'' then IsUpper E c
      else if sp = ''IsPunct'' then IsPunct E c
      else if sp = ''IsPrint'' then IsPrint E c
      else if sp = ''IsGraphic'' then IsGraphic E c
      else if sp = ''IsControl'' then IsControl E c
      else False)"

definition makeCharClassHandler :: "golib \<Rightarrow> CharClass \<Rightarrow> handler" where
  "makeCharClassHandler E cc =
     (if Special cc \<noteq> [] then (\<lambda>r pos.
        case slice (Source r) pos (int (length (Source r))) of
          None \<Rightarrow> Some Exit
        | Some rest \<Rightarrow>
            (case DecodeRuneInString rest of (c, w) \<Rightarrow>
               if w = 0 then Some (Ret 0 (Some ExpectingCharGotEOF) r)
               else
                 (let match0 = specialMatch E (Special cc) c;
                      match = (if Negated cc then \<not> match0 else match0)
                  in if \<not> match then Some (Ret 0 (Some (CharNoMatch c cc)) r)
                     else Some (Ret w None r))))
      else (\<lambda>r pos.
        case slice (Source r) pos (int (length (Source r))) of
          None \<Rightarrow> Some Exit
        | Some rest \<Rightarrow>
            (case DecodeRuneInString rest of (c, w) \<Rightarrow>
               if w = 0 then Some (Ret 0 (Some ExpectingCharGotEOF) r)
               else if c = RuneError then Some (Ret 0 (Some ExpectingUtf8GotRuneError) r)
               else
                 (let match0 = (if Map cc \<noteq> None then mapGet (Map cc) c else False);
                      match1 = (case RangeTable cc of
                                  None \<Rightarrow> match0
                                | Some t \<Rightarrow> match0 \<or> unicode_Is E t c);
                      match = (if Negated cc then \<not> match1 else match1)
                  in if \<not> match then Some (Ret 0 (Some (CharNoMatch c cc)) r)
                     else Some (Ret w None r)))))"

text \<open>The closure of \<open>makeGroupHandler\<close>: the matchers of a sequence, in order.\<close>

fun groupLoop :: "handler list \<Rightarrow> int \<Rightarrow> int \<Rightarrow> Result \<Rightarrow> hres option" where
  "groupLoop [] pos ww r = Some (Ret ww None r)"
| "groupLoop (h # hs) pos ww r =
     (case h r (pos + ww) of
        None \<Rightarrow> None
      | Some Exit \<Rightarrow> Some Exit
      | Some (Ret w err r1) \<Rightarrow>
          (case err of
             Some e \<Rightarrow> Some (Ret ww (Some e) r1)
           | None \<Rightarrow> groupLoop hs pos (ww + w) r1))"

definition groupHandler :: "handler list \<Rightarrow> handler" where
  "groupHandler hh = (\<lambda>r pos. groupLoop hh pos 0 r)"

text \<open>
  The closure of \<open>makeRHSHandler\<close> for several alternatives. Each matcher is paired
  with \<open>groupToString\<close> of its alternative, the key of its entry in \<open>errMap\<close>.
\<close>

fun choiceLoop ::
  "RHS \<Rightarrow> (string \<times> handler) list \<Rightarrow> Node list \<Rightarrow> int \<Rightarrow> (string \<times> perror) list \<Rightarrow> int
     \<Rightarrow> Result \<Rightarrow> hres option" where
  "choiceLoop rhs [] save pos errMap w r =
     Some (Ret w (Some (RhsError rhs errMap (fyiError r))) r)"
| "choiceLoop rhs ((k, h) # hs) save pos errMap w r =
     (case setTopChildren r save of
        None \<Rightarrow> Some Exit
      | Some r1 \<Rightarrow>
          (case h r1 pos of
             None \<Rightarrow> None
           | Some Exit \<Rightarrow> Some Exit
           | Some (Ret w' err r2) \<Rightarrow>
               (case err of
                  None \<Rightarrow> Some (Ret w' None r2)
                | Some e \<Rightarrow> choiceLoop rhs hs save pos (AList.update k e errMap) w' r2)))"

definition choiceHandler :: "RHS \<Rightarrow> (string \<times> handler) list \<Rightarrow> handler" where
  "choiceHandler rhs khs = (\<lambda>r pos.
     case TopNode r of
       None \<Rightarrow> Some Exit
     | Some tn \<Rightarrow>
         (case khs of
            [] \<Rightarrow> Some Exit
          | (k, h) # rest \<Rightarrow>
              (case h r pos of
                 None \<Rightarrow> None
               | Some Exit \<Rightarrow> Some Exit
               | Some (Ret w err r1) \<Rightarrow>
                   (case err of
                      None \<Rightarrow> Some (Ret w None r1)
                    | Some e \<Rightarrow> choiceLoop rhs rest (Children tn) pos [(k, e)] w r1))))"

text \<open>\<open>makeCaptureHandler\<close>.\<close>

definition makeCaptureHandler :: "handler \<Rightarrow> handler" where
  "makeCaptureHandler h = (\<lambda>r pos.
     case h r pos of
       None \<Rightarrow> None
     | Some Exit \<Rightarrow> Some Exit
     | Some (Ret w err r1) \<Rightarrow>
         (case err of
            Some e \<Rightarrow> Some (Ret w (Some e) r1)
          | None \<Rightarrow>
              (case nodeStack r1 of
                 [] \<Rightarrow> Some Exit
               | n # ns \<Rightarrow>
                   (case slice (Source r1) pos (pos + w) of
                      None \<Rightarrow> Some Exit
                    | Some t \<Rightarrow> Some (Ret w None (r1\<lparr>nodeStack := setText n t # ns\<rparr>))))))"

text \<open>
  The loop shared by \<open>makeStarHandler\<close> and \<open>makePlusHandler\<close>:
  \<open>for w, err = h(r, pos+ww); err == nil && w > 0; w, err = h(r, pos+ww)\<close>, with the
  assignment \<open>r.TopNode().Children = save\<close> that follows it. It returns the total
  width, the error of the last call of \<open>h\<close>, and the state. The loop has no bound of
  its own, so it is a partial function: \<open>None\<close> when it does not end.
\<close>

partial_function (option) repeatLoop ::
  "handler \<Rightarrow> int \<Rightarrow> int \<Rightarrow> Node list \<Rightarrow> Result \<Rightarrow> hres option" where
  "repeatLoop h pos ww save r =
     (case h r (pos + ww) of
        None \<Rightarrow> None
      | Some Exit \<Rightarrow> Some Exit
      | Some (Ret w err r1) \<Rightarrow>
          if err = None \<and> 0 < w
          then (case TopNode r1 of
                  None \<Rightarrow> Some Exit
                | Some tn \<Rightarrow> repeatLoop h pos (ww + w) (Children tn) r1)
          else (case setTopChildren r1 save of
                  None \<Rightarrow> Some Exit
                | Some r2 \<Rightarrow> Some (Ret ww err r2)))"

declare repeatLoop.simps [code]

definition makeStarHandler :: "handler \<Rightarrow> handler" where
  "makeStarHandler h = (\<lambda>r pos.
     case TopNode r of
       None \<Rightarrow> Some Exit
     | Some tn \<Rightarrow>
         (case repeatLoop h pos 0 (Children tn) r of
            None \<Rightarrow> None
          | Some Exit \<Rightarrow> Some Exit
          | Some (Ret ww err r2) \<Rightarrow>
              Some (Ret ww None
                (if ww = 0 \<and> err \<noteq> None then r2\<lparr>fyiError := err\<rparr> else r2))))"

definition makePlusHandler :: "handler \<Rightarrow> handler" where
  "makePlusHandler h = (\<lambda>r pos.
     case h r pos of
       None \<Rightarrow> None
     | Some Exit \<Rightarrow> Some Exit
     | Some (Ret ww err r1) \<Rightarrow>
         (case err of
            Some e \<Rightarrow> Some (Ret ww (Some e) r1)
          | None \<Rightarrow>
              (case TopNode r1 of
                 None \<Rightarrow> Some Exit
               | Some tn \<Rightarrow>
                   (case repeatLoop h pos ww (Children tn) r1 of
                      None \<Rightarrow> None
                    | Some Exit \<Rightarrow> Some Exit
                    | Some (Ret ww' err' r2) \<Rightarrow> Some (Ret ww' None r2)))))"

definition makeQuestionHandler :: "handler \<Rightarrow> handler" where
  "makeQuestionHandler h = (\<lambda>r pos.
     case h r pos of
       None \<Rightarrow> None
     | Some Exit \<Rightarrow> Some Exit
     | Some (Ret w err r1) \<Rightarrow>
         (case err of
            Some e \<Rightarrow> Some (Ret 0 None r1)
          | None \<Rightarrow> Some (Ret w None r1)))"

definition makePredicateHandler :: "handler \<Rightarrow> bool \<Rightarrow> handler" where
  "makePredicateHandler h positive = (\<lambda>r pos.
     case h r pos of
       None \<Rightarrow> None
     | Some Exit \<Rightarrow> Some Exit
     | Some (Ret w err r1) \<Rightarrow>
         if positive = (err = None) then Some (Ret 0 None r1)
         else if err = None then Some (Ret 0 (Some NegPredMatched) r1)
         else Some (Ret 0 err r1))"

section \<open>Compiling a grammar\<close>

text \<open>
  The \<open>make...Handler\<close> functions return a matcher or an error; \<open>log.Exitf\<close> at
  compile time ends the program, so no grammar results from it either. The matcher of a
  rule reference calls \<open>Result.apply\<close> on the rule, which runs the rule's own
  matcher, the field \<open>ru.handler\<close> that \<open>New\<close> assigns: \<open>rh\<close> stands for that
  field.
\<close>

datatype cerror = UnknownRule string | ExitTermNYI | ExitInvalidSpecial int

definition makeRuleHandler ::
  "Grammar \<Rightarrow> (Rule \<Rightarrow> handler) \<Rightarrow> string \<Rightarrow> cerror + handler" where
  "makeRuleHandler g rh name =
     (case Rules g name of
        None \<Rightarrow> Inl (UnknownRule name)
      | Some ru \<Rightarrow> Inr (\<lambda>r pos. Result_apply (rh ru) (Ident ru) r pos))"

definition makeSpecialHandler :: "handler \<Rightarrow> int \<Rightarrow> cerror + handler" where
  "makeSpecialHandler h c =
     (if c = 42 then Inr (makeStarHandler h)
      else if c = 63 then Inr (makeQuestionHandler h)
      else if c = 43 then Inr (makePlusHandler h)
      else Inl (ExitInvalidSpecial c))"

fun collect :: "('e + 'a) list \<Rightarrow> 'e + 'a list" where
  "collect [] = Inr []"
| "collect (x # xs) =
     (case x of
        Inl e \<Rightarrow> Inl e
      | Inr h \<Rightarrow> (case collect xs of Inl e \<Rightarrow> Inl e | Inr hs \<Rightarrow> Inr (h # hs)))"

text \<open>
  \<open>makeGroupHandler\<close> and \<open>makeRHSHandler\<close> compile the elements in order and stop at
  the first error (\<open>collect\<close>); a list of one element gives that element's matcher
  itself. \<open>groupOf\<close> and \<open>rhsOf\<close> are these two functions on the already compiled
  elements.
\<close>

definition groupOf :: "(cerror + handler) list \<Rightarrow> cerror + handler" where
  "groupOf cs =
     (case cs of
        [c] \<Rightarrow> c
      | _ \<Rightarrow> (case collect cs of Inl e \<Rightarrow> Inl e | Inr hh \<Rightarrow> Inr (groupHandler hh)))"

definition rhsOf :: "golib \<Rightarrow> RHS \<Rightarrow> (cerror + handler) list \<Rightarrow> cerror + handler" where
  "rhsOf E choices cs =
     (case cs of
        [c] \<Rightarrow> c
      | _ \<Rightarrow>
          (case collect cs of
             Inl e \<Rightarrow> Inl e
           | Inr hh \<Rightarrow> Inr (choiceHandler choices (zip (map (groupToString E) choices) hh))))"

fun makeTermHandler :: "golib \<Rightarrow> Grammar \<Rightarrow> (Rule \<Rightarrow> handler) \<Rightarrow> Term \<Rightarrow> cerror + handler"
where
  "makeTermHandler E g rh (TParens rhs) =
     rhsOf E rhs (map (\<lambda>ts. groupOf (map (makeTermHandler E g rh) ts)) rhs)"
| "makeTermHandler E g rh (TNegPred t) =
     (case makeTermHandler E g rh t of
        Inl e \<Rightarrow> Inl e
      | Inr h \<Rightarrow> Inr (makePredicateHandler h False))"
| "makeTermHandler E g rh (TPred t) =
     (case makeTermHandler E g rh t of
        Inl e \<Rightarrow> Inl e
      | Inr h \<Rightarrow> Inr (makePredicateHandler h True))"
| "makeTermHandler E g rh (TSpecial t c) =
     (case makeTermHandler E g rh t of
        Inl e \<Rightarrow> Inl e
      | Inr h \<Rightarrow> makeSpecialHandler h c)"
| "makeTermHandler E g rh (TCapture rhs) =
     (case rhsOf E rhs (map (\<lambda>ts. groupOf (map (makeTermHandler E g rh) ts)) rhs) of
        Inl e \<Rightarrow> Inl e
      | Inr h \<Rightarrow> Inr (makeCaptureHandler h))"
| "makeTermHandler E g rh (TCharClass cc) = Inr (makeCharClassHandler E cc)"
| "makeTermHandler E g rh (TLiteral l) =
     (if l \<noteq> [] then Inr (makeLiteralHandler l) else Inl ExitTermNYI)"
| "makeTermHandler E g rh (TIdent i) =
     (if i \<noteq> [] then makeRuleHandler g rh i else Inl ExitTermNYI)"

definition makeGroupHandler ::
  "golib \<Rightarrow> Grammar \<Rightarrow> (Rule \<Rightarrow> handler) \<Rightarrow> Term list \<Rightarrow> cerror + handler" where
  "makeGroupHandler E g rh terms = groupOf (map (makeTermHandler E g rh) terms)"

definition makeRHSHandler ::
  "golib \<Rightarrow> Grammar \<Rightarrow> (Rule \<Rightarrow> handler) \<Rightarrow> RHS \<Rightarrow> cerror + handler" where
  "makeRHSHandler E g rh rhs = rhsOf E rhs (map (makeGroupHandler E g rh) rhs)"

text \<open>
  The matcher stored in a rule, for rule applications nested at most \<open>n\<close> deep: with
  no depth left the call does not return. A rule whose right-hand side does not compile
  has no matcher (\<open>New\<close> fails), and calling it panics.
\<close>

primrec ruleHandler :: "golib \<Rightarrow> Grammar \<Rightarrow> nat \<Rightarrow> Rule \<Rightarrow> handler" where
  "ruleHandler E g 0 = (\<lambda>ru r pos. None)"
| "ruleHandler E g (Suc n) = (\<lambda>ru.
     case makeRHSHandler E g (ruleHandler E g n) (RHS ru) of
       Inl e \<Rightarrow> (\<lambda>r pos. Some Exit)
     | Inr h \<Rightarrow> h)"

section \<open>Grammar.Parse\<close>

datatype presult = PExit | PRet "Result option" "perror option"

definition newResult :: "Grammar \<Rightarrow> string \<Rightarrow> Result" where
  "newResult g input =
     \<lparr>Grammar = g, Source = input, Tree = None, memo = Map.empty, nodeStack = [],
      fyiError = None, rowCol = Map.empty\<rparr>"

definition afterApply :: "Grammar \<Rightarrow> string \<Rightarrow> int \<Rightarrow> perror option \<Rightarrow> Result \<Rightarrow> presult" where
  "afterApply g input w err result =
     (if err \<noteq> None then PRet (Some result) err
      else if w = 0 \<and> 0 < length input
        then PRet (Some result) (Some (MatchedZero (fyiError result)))
      else if w \<noteq> int (length input) \<and> \<not> IgnoreUnconsumedTail (ParserOptions g)
        then (case slice input w (int (length input)) of
                None \<Rightarrow> PExit
              | Some errContent \<Rightarrow>
                  PRet (Some result)
                    (Some (Unconsumed
                       (if \<not> LongErrorMessage (ParserOptions g) \<and> 13 < length errContent
                        then take 10 errContent @ ''...'' else errContent)
                       (fyiError result))))
      else if Tree result = None
        then PRet None (Some (NoSyntaxTree (length (nodeStack result))))
      else PRet (Some result) None)"

definition Parse :: "golib \<Rightarrow> nat \<Rightarrow> Grammar \<Rightarrow> string \<Rightarrow> presult option" where
  "Parse E n g input =
     (case RuleNames g of
        [] \<Rightarrow> Some (PRet None (Some NoRules))
      | topRule # _ \<Rightarrow>
          (case Rules g topRule of
             None \<Rightarrow> Some (PRet None (Some (MissingTopRule topRule)))
           | Some tr \<Rightarrow>
               (case Result_apply (ruleHandler E g n tr) (Ident tr) (newResult g input) 0 of
                  None \<Rightarrow> None
                | Some Exit \<Rightarrow> Some PExit
                | Some (Ret w err result) \<Rightarrow> Some (afterApply g input w err result))))"

section \<open>Content annotation and reconstruction\<close>

fun countRowCol :: "string \<Rightarrow> int \<Rightarrow> int \<Rightarrow> int \<times> int" where
  "countRowCol [] row col = (row, col)"
| "countRowCol (c # cs) row col =
     (if c = CHR 0x0A then countRowCol cs (row + 1) 0 else countRowCol cs row (col + 1))"

text \<open>
  \<open>Result.computeContent\<close> writes \<open>Row\<close>, \<open>Col\<close> and \<open>Content\<close> into the nodes of
  the tree; the model returns the rewritten node. \<open>None\<close> is the panic of a slice
  expression out of range. The loop over the children is \<open>computeChildren\<close>: it
  returns the rewritten children, the pieces appended to the parent's \<open>Content\<close>, and
  the position, row and column after the last child. A node value stands for one node
  object; a tree that holds the same node object twice is outside this model.
\<close>

fun computeContent :: "string \<Rightarrow> Node \<Rightarrow> int \<Rightarrow> int \<Rightarrow> int \<Rightarrow> (Node \<times> int \<times> int) option"
  and computeChildren ::
    "string \<Rightarrow> Node list \<Rightarrow> int \<Rightarrow> int \<Rightarrow> int
       \<Rightarrow> (Node list \<times> string list \<times> int \<times> int \<times> int) option"
where
  "computeContent src (Node l t c p len row0 col0 chs e a ta) pos row col =
     (case slice src pos p of
        None \<Rightarrow> None
      | Some s0 \<Rightarrow>
          (case countRowCol s0 row col of (row1, col1) \<Rightarrow>
             (case computeChildren src chs p row1 col1 of
                None \<Rightarrow> None
              | Some (chs', pieces, pos', row2, col2) \<Rightarrow>
                  (case slice src pos' (p + len) of
                     None \<Rightarrow> None
                   | Some piece \<Rightarrow>
                       (case countRowCol piece row2 col2 of (row3, col3) \<Rightarrow>
                          Some (Node l t (c @ pieces @ [piece]) p len row1 col1 chs' e a ta,
                                row3, col3))))))"
| "computeChildren src [] pos row col = Some ([], [], pos, row, col)"
| "computeChildren src (ch # chs) pos row col =
     (case slice src pos (Pos ch) of
        None \<Rightarrow> None
      | Some piece \<Rightarrow>
          (case countRowCol piece row col of (row1, col1) \<Rightarrow>
             (case computeContent src ch (Pos ch) row1 col1 of
                None \<Rightarrow> None
              | Some (ch', row2, col2) \<Rightarrow>
                  (case computeChildren src chs (Pos ch + Len ch) row2 col2 of
                     None \<Rightarrow> None
                   | Some (chs', pieces, pos', row3, col3) \<Rightarrow>
                       Some (ch' # chs', piece # pieces, pos', row3, col3)))))"

text \<open>
  \<open>Result.ComputeContent\<close>: a nil tree is a nil dereference, a panic as well.
\<close>

definition ComputeContent :: "Result \<Rightarrow> Result option" where
  "ComputeContent r =
     (case Tree r of
        None \<Rightarrow> None
      | Some n \<Rightarrow>
          (case computeContent (Source r) n 0 1 0 of
             None \<Rightarrow> None
           | Some (n', row, col) \<Rightarrow> Some (r\<lparr>Tree := Some n'\<rparr>)))"

datatype rerror = EmptyContent Node | BrokenContent Node

text \<open>
  \<open>Node.reconstructContent\<close> appends to a buffer; the error of a child's call is
  dropped, as in the source.
\<close>

fun reconstructContent :: "Node \<Rightarrow> string \<Rightarrow> rerror option \<times> string"
  and reconstructChildren :: "string list \<Rightarrow> Node list \<Rightarrow> string \<Rightarrow> string"
where
  "reconstructContent (Node l t c p len row col chs e a ta) buf =
     (if length c = 0 then (Some (EmptyContent (Node l t c p len row col chs e a ta)), buf)
      else if length c \<noteq> length chs + 1
        then (Some (BrokenContent (Node l t c p len row col chs e a ta)), buf)
      else (None, reconstructChildren c chs buf @ c ! length chs))"
| "reconstructChildren c [] buf = buf"
| "reconstructChildren c (ch # chs) buf =
     (case c of
        [] \<Rightarrow> buf
      | piece # c' \<Rightarrow> reconstructChildren c' chs (snd (reconstructContent ch (buf @ piece))))"

definition ReconstructContent :: "Node \<Rightarrow> rerror + string" where
  "ReconstructContent n =
     (case reconstructContent n [] of
        (Some e, buf) \<Rightarrow> Inl e
      | (None, buf) \<Rightarrow> Inr buf)"

section \<open>Semantic construction (parser2/construct.go)\<close>

text \<open>
  The values a callback returns are Go values behind \<open>interface{}\<close>, which the
  constructor only inspects through \<open>reflect\<close>: a string, a value of some other named
  type, or a slice with its element type. \<open>nil\<close> is \<open>None\<close>. \<open>reflect.Append\<close> panics
  when an element is not of the slice's element type.
\<close>

datatype gtype = TyString | TyNamed string | TySlice gtype

datatype gval = VString string | VNamed string nat | VSlice gtype "gval list"

fun TypeOf :: "gval \<Rightarrow> gtype" where
  "TypeOf (VString s) = TyString"
| "TypeOf (VNamed name x) = TyNamed name"
| "TypeOf (VSlice t xs) = TySlice t"

definition isSlice :: "gtype \<Rightarrow> bool" where
  "isSlice t = (case t of TySlice e \<Rightarrow> True | _ \<Rightarrow> False)"

definition makeSliceOf :: "gtype \<Rightarrow> gval list \<Rightarrow> gval option" where
  "makeSliceOf t vs =
     (case t of
        TySlice e \<Rightarrow> (if list_all (\<lambda>v. TypeOf v = e) vs then Some (VSlice e vs) else None)
      | _ \<Rightarrow> None)"

definition elems :: "gval \<Rightarrow> gval list" where
  "elems v = (case v of VSlice t xs \<Rightarrow> xs | _ \<Rightarrow> [])"

datatype aerror =
    ExpectedStringGotNone Node string
  | ExpectedStringGot Node string gtype
  | ExpectedGotNone string gtype
  | ExpectedGot gtype gtype
  | ChildNotUsed string
  | ChildOutOfBounds int nat
  | MultipleErrors "aerror list"
  | IncompatibleTypes gtype gtype Node
  | ErrorConstructing string aerror Node
  | CallbackError string

record AccessorOptions =
  ErrorOnUnusedChild :: bool

text \<open>
  The accessor: \<open>children\<close> is the map from a child label to the value constructed
  for it, \<open>accessed\<close> the labels set in the map \<open>accessed\<close>.
\<close>

record accessor =
  node :: Node
  children :: "(string \<times> gval) list"
  accessed :: "string list"
  errs :: "aerror list"
  options :: "AccessorOptions option"

definition GetString :: "accessor \<Rightarrow> string \<Rightarrow> (string \<times> aerror option) \<times> accessor" where
  "GetString ca name =
     (let ca1 = ca\<lparr>accessed := name # accessed ca\<rparr> in
      case map_of (children ca) name of
        None \<Rightarrow> (([], Some (ExpectedStringGotNone (node ca) name)), ca1)
      | Some val \<Rightarrow>
          (case val of
             VString s \<Rightarrow> ((s, None), ca1)
           | _ \<Rightarrow> (([], Some (ExpectedStringGot (node ca) name (TypeOf val))), ca1)))"

definition accessor_String :: "accessor \<Rightarrow> string \<Rightarrow> string \<times> accessor" where
  "accessor_String ca name =
     (case GetString ca name of
        ((val, None), ca1) \<Rightarrow> (val, ca1)
      | ((val, Some err), ca1) \<Rightarrow> (val, ca1\<lparr>errs := errs ca1 @ [err]\<rparr>))"

text \<open>\<open>GetTyped\<close>; \<open>None\<close> is a panic inside \<open>reflect\<close>.\<close>

definition GetTyped ::
  "accessor \<Rightarrow> string \<Rightarrow> gval option \<Rightarrow> ((gval option \<times> aerror option) \<times> accessor) option" where
  "GetTyped ca name ty =
     (let ca1 = ca\<lparr>accessed := name # accessed ca\<rparr> in
      case map_of (children ca) name of
        None \<Rightarrow>
          (case ty of
             None \<Rightarrow> Some ((None, None), ca1)
           | Some tyv \<Rightarrow>
               if isSlice (TypeOf tyv) then Some ((ty, None), ca1)
               else Some ((ty, Some (ExpectedGotNone name (TypeOf tyv))), ca1))
      | Some val \<Rightarrow>
          (case ty of
             None \<Rightarrow> Some ((Some val, None), ca1)
           | Some tyv \<Rightarrow>
               if TypeOf val = TypeOf tyv then Some ((Some val, None), ca1)
               else if TypeOf tyv = TySlice (TypeOf val)
                 then Some ((Some (VSlice (TypeOf val) [val]), None), ca1)
               else if isSlice (TypeOf tyv) \<and> isSlice (TypeOf val)
                 then (case makeSliceOf (TypeOf tyv) (elems val) of
                         None \<Rightarrow> None
                       | Some s \<Rightarrow> Some ((Some s, None), ca1))
               else if isSlice (TypeOf tyv)
                 then (case makeSliceOf (TypeOf tyv) [val] of
                         None \<Rightarrow> None
                       | Some s \<Rightarrow> Some ((Some s, None), ca1))
               else Some ((ty, Some (ExpectedGot (TypeOf tyv) (TypeOf val))), ca1)))"

definition accessor_Get ::
  "accessor \<Rightarrow> string \<Rightarrow> gval option \<Rightarrow> (gval option \<times> accessor) option" where
  "accessor_Get ca name ty =
     (case GetTyped ca name ty of
        None \<Rightarrow> None
      | Some ((val, None), ca1) \<Rightarrow> Some (val, ca1)
      | Some ((val, Some err), ca1) \<Rightarrow> Some (val, ca1\<lparr>errs := errs ca1 @ [err]\<rparr>))"

definition accessor_Child :: "accessor \<Rightarrow> int \<Rightarrow> string \<times> accessor" where
  "accessor_Child ca i =
     (if i < 0 \<or> int (length (Children (node ca))) \<le> i
      then ([], ca\<lparr>errs := errs ca @ [ChildOutOfBounds i (length (Children (node ca)))]\<rparr>)
      else (Label (Children (node ca) ! nat i), ca))"

definition GetChild :: "accessor \<Rightarrow> string \<Rightarrow> Node option" where
  "GetChild ca label = find (\<lambda>ch. Label ch = label) (Children (node ca))"

text \<open>
  \<open>Check\<close>: with \<open>ErrorOnUnusedChild\<close>, one error for every key of \<open>children\<close> that
  is not in \<open>accessed\<close>; then the collected errors, if any, as one error.
\<close>

definition Check :: "accessor \<Rightarrow> aerror option" where
  "Check ca =
     (let unused =
            (case options ca of
               None \<Rightarrow> []
             | Some opts \<Rightarrow>
                 if ErrorOnUnusedChild opts
                 then map ChildNotUsed
                        (filter (\<lambda>k. k \<notin> set (accessed ca)) (remdups (map fst (children ca))))
                 else []);
          es = errs ca @ unused
      in if es = [] then None else Some (MultipleErrors es))"

text \<open>
  A callback can reach the accessor only through the methods of the interface
  \<open>Accessor\<close>. It is modelled as a program of such calls, each with the continuation
  that receives the call's result; it ends returning a value and an error, or panics.
  The callback of a construction maps the node's label to such a program.
\<close>

datatype cbprog =
    CbReturn "gval option" "aerror option"
  | CbPanic
  | CbNode "Node \<Rightarrow> cbprog"
  | CbGetString string "string \<Rightarrow> aerror option \<Rightarrow> cbprog"
  | CbString string "string \<Rightarrow> cbprog"
  | CbGet string "gval option" "gval option \<Rightarrow> cbprog"
  | CbGetTyped string "gval option" "gval option \<Rightarrow> aerror option \<Rightarrow> cbprog"
  | CbChild int "string \<Rightarrow> cbprog"
  | CbGetChild string "Node option \<Rightarrow> cbprog"

primrec runCallback ::
  "cbprog \<Rightarrow> accessor \<Rightarrow> ((gval option \<times> aerror option) \<times> accessor) option" where
  "runCallback (CbReturn v e) ca = Some ((v, e), ca)"
| "runCallback CbPanic ca = None"
| "runCallback (CbNode k) ca = runCallback (k (node ca)) ca"
| "runCallback (CbGetString name k) ca =
     (case GetString ca name of ((s, e), ca1) \<Rightarrow> runCallback (k s e) ca1)"
| "runCallback (CbString name k) ca =
     (case accessor_String ca name of (s, ca1) \<Rightarrow> runCallback (k s) ca1)"
| "runCallback (CbGet name ty k) ca =
     (case accessor_Get ca name ty of
        None \<Rightarrow> None
      | Some (v, ca1) \<Rightarrow> runCallback (k v) ca1)"
| "runCallback (CbGetTyped name ty k) ca =
     (case GetTyped ca name ty of
        None \<Rightarrow> None
      | Some ((v, e), ca1) \<Rightarrow> runCallback (k v e) ca1)"
| "runCallback (CbChild i k) ca =
     (case accessor_Child ca i of (l, ca1) \<Rightarrow> runCallback (k l) ca1)"
| "runCallback (CbGetChild label k) ca = runCallback (k (GetChild ca label)) ca"

text \<open>
  \<open>Construct\<close>. \<open>CPanic\<close> is a panic (of the callback or of \<open>reflect\<close>);
  \<open>CRet val err\<close> is the returned pair. \<open>constructChildren\<close> is the loop over the
  children, which fills the map \<open>children\<close> of the accessor.
\<close>

datatype cres = CPanic | CRet "gval option" "aerror option"

datatype clres = CLPanic | CLErr aerror | CLOk "(string \<times> gval) list"

definition storeChild ::
  "(string \<times> gval) list \<Rightarrow> Node \<Rightarrow> gval \<Rightarrow> aerror + (string \<times> gval) list" where
  "storeChild m ch val =
     (case map_of m (Label ch) of
        None \<Rightarrow> Inr (AList.update (Label ch) val m)
      | Some have \<Rightarrow>
          if TypeOf have = TypeOf val
          then Inr (AList.update (Label ch) (VSlice (TypeOf have) [have, val]) m)
          else if TypeOf have = TySlice (TypeOf val)
            then Inr (AList.update (Label ch) (VSlice (TypeOf val) (elems have @ [val])) m)
          else Inl (IncompatibleTypes (TypeOf have) (TypeOf val) ch))"

fun Construct :: "(string \<Rightarrow> cbprog) \<Rightarrow> AccessorOptions option \<Rightarrow> Node \<Rightarrow> cres"
  and constructChildren ::
    "(string \<Rightarrow> cbprog) \<Rightarrow> AccessorOptions option \<Rightarrow> Node list \<Rightarrow> (string \<times> gval) list
       \<Rightarrow> clres"
where
  "Construct cb opts (Node l t c p len row col chs e a ta) =
     (case constructChildren cb opts chs [] of
        CLPanic \<Rightarrow> CPanic
      | CLErr err \<Rightarrow> CRet None (Some err)
      | CLOk m \<Rightarrow>
          (case runCallback (cb l)
                  \<lparr>node = Node l t c p len row col chs e a ta, children = m, accessed = [],
                   errs = [], options = opts\<rparr> of
             None \<Rightarrow> CPanic
           | Some ((val, Some err), ca) \<Rightarrow>
               CRet None (Some (ErrorConstructing l err (Node l t c p len row col chs e a ta)))
           | Some ((val, None), ca) \<Rightarrow>
               (case Check ca of
                  Some err \<Rightarrow>
                    CRet None
                      (Some (ErrorConstructing l err (Node l t c p len row col chs e a ta)))
                | None \<Rightarrow> CRet val None)))"
| "constructChildren cb opts [] m = CLOk m"
| "constructChildren cb opts (ch # chs) m =
     (case Construct cb opts ch of
        CPanic \<Rightarrow> CLPanic
      | CRet val (Some err) \<Rightarrow> CLErr err
      | CRet None None \<Rightarrow> constructChildren cb opts chs m
      | CRet (Some val) None \<Rightarrow>
          (case storeChild m ch val of
             Inl err \<Rightarrow> CLErr err
           | Inr m' \<Rightarrow> constructChildren cb opts chs m'))"

text \<open>The nodes of a tree: the node and the nodes of its children.\<close>

fun subnodes :: "Node \<Rightarrow> Node list" where
  "subnodes (Node l t c p len row col chs e a ta) =
     Node l t c p len row col chs e a ta # concat (map subnodes chs)"

text \<open>
  The accessor as \<open>Construct\<close> hands it to the callback of node \<open>n\<close>, when the loop
  over the children returns normally; and the accessor after the callback has run.
\<close>

definition accessorFor ::
  "(string \<Rightarrow> cbprog) \<Rightarrow> AccessorOptions option \<Rightarrow> Node \<Rightarrow> accessor option" where
  "accessorFor cb opts n =
     (case constructChildren cb opts (Children n) [] of
        CLOk m \<Rightarrow> Some \<lparr>node = n, children = m, accessed = [], errs = [], options = opts\<rparr>
      | _ \<Rightarrow> None)"

definition afterCallback ::
  "(string \<Rightarrow> cbprog) \<Rightarrow> AccessorOptions option \<Rightarrow> Node \<Rightarrow> accessor option" where
  "afterCallback cb opts n =
     (case accessorFor cb opts n of
        None \<Rightarrow> None
      | Some ca \<Rightarrow>
          (case runCallback (cb (Label n)) ca of
             None \<Rightarrow> None
           | Some (res, ca') \<Rightarrow> Some ca'))"

text \<open>A construction fails when it panics or returns an error.\<close>

definition failed :: "cres \<Rightarrow> bool" where
  "failed res = (case res of CPanic \<Rightarrow> True | CRet val err \<Rightarrow> err \<noteq> None)"

section \<open>Properties of matchers and states\<close>

text \<open>
  A matcher \<open>h'\<close> extends \<open>h\<close> when every call that returns under \<open>h\<close> returns the
  same under \<open>h'\<close>; for the keyed matchers of an ordered choice the keys agree as
  well.
\<close>

definition hle :: "handler \<Rightarrow> handler \<Rightarrow> bool" where
  "hle h h' = (\<forall>r pos x. h r pos = Some x \<longrightarrow> h' r pos = Some x)"

definition khle :: "string \<times> handler \<Rightarrow> string \<times> handler \<Rightarrow> bool" where
  "khle a b = (fst a = fst b \<and> hle (snd a) (snd b))"

text \<open>
  A node is bounded by \<open>L\<close> when it and all nodes below it start at or after 0, have
  a length of at least 0 and end at or before \<open>L\<close>.
\<close>

fun bounded :: "int \<Rightarrow> Node \<Rightarrow> bool" where
  "bounded L (Node l t c p len row col chs e a ta) =
     (0 \<le> p \<and> 0 \<le> len \<and> p + len \<le> L \<and> list_all (bounded L) chs)"

text \<open>
  A state inside a rule application is well formed when the node stack is not empty,
  the nodes on the stack are bounded by the length of the input, and every memoized
  node is bounded and carries the position and rule name of its key.
\<close>

definition srclen :: "Result \<Rightarrow> int" where
  "srclen r = int (length (Source r))"

definition wfState :: "Result \<Rightarrow> bool" where
  "wfState r =
     (nodeStack r \<noteq> [] \<and> list_all (bounded (srclen r)) (nodeStack r) \<and>
      (\<forall>pos name n. memo r (pos, name) = Some n \<longrightarrow>
         bounded (srclen r) n \<and> Pos n = pos \<and> Label n = name))"

text \<open>
  What a matcher leaves alone: the input, the grammar, the root, the stack below its
  top, and label, position, length and content of the top node.
\<close>

definition sameFrame :: "Result \<Rightarrow> Result \<Rightarrow> bool" where
  "sameFrame r r' =
     (Source r' = Source r \<and> Grammar r' = Grammar r \<and> Tree r' = Tree r \<and>
      tl (nodeStack r') = tl (nodeStack r) \<and>
      Label (hd (nodeStack r')) = Label (hd (nodeStack r)) \<and>
      Pos (hd (nodeStack r')) = Pos (hd (nodeStack r)) \<and>
      Len (hd (nodeStack r')) = Len (hd (nodeStack r)) \<and>
      Content (hd (nodeStack r')) = Content (hd (nodeStack r)))"

text \<open>
  A matcher is sound when every call on a well-formed state at a position within the
  input that returns \<open>(w, err)\<close> leaves a well-formed state with the same frame, and
  \<open>w\<close> bytes from the position lie within the input.
\<close>

definition sound :: "handler \<Rightarrow> bool" where
  "sound h =
     (\<forall>r pos w e r'. wfState r \<and> 0 \<le> pos \<and> pos \<le> srclen r \<and> h r pos = Some (Ret w e r') \<longrightarrow>
        wfState r' \<and> sameFrame r r' \<and> 0 \<le> w \<and> pos + w \<le> srclen r)"

definition csound :: "cerror + handler \<Rightarrow> bool" where
  "csound c = (case c of Inl e \<Rightarrow> True | Inr h \<Rightarrow> sound h)"

text \<open>
  The invariant of a parse tree over an input of \<open>n\<close> bytes: every node lies within
  the input, and the children of a node lie within the node's range, in order and
  without overlap.
\<close>

fun nodeInRange :: "int \<Rightarrow> Node \<Rightarrow> bool"
  and childrenInOrder :: "int \<Rightarrow> int \<Rightarrow> int \<Rightarrow> Node list \<Rightarrow> bool"
where
  "nodeInRange n (Node l t c p len row col chs e a ta) =
     (0 \<le> p \<and> 0 \<le> len \<and> p + len \<le> n \<and> childrenInOrder n p (p + len) chs)"
| "childrenInOrder n lo hi [] = True"
| "childrenInOrder n lo hi (ch # chs) =
     (lo \<le> Pos ch \<and> Pos ch + Len ch \<le> hi \<and> nodeInRange n ch \<and>
      childrenInOrder n (Pos ch + Len ch) hi chs)"

text \<open>
  A node is fresh when no \<open>Content\<close> has been written into it or into a node below
  it. Only \<open>ComputeContent\<close> writes \<open>Content\<close>.
\<close>

fun fresh :: "Node \<Rightarrow> bool" where
  "fresh (Node l t c p len row col chs e a ta) = (c = [] \<and> list_all fresh chs)"

text \<open>
  A list of children is in order for the top node up to \<open>pos\<close> when the top node
  starts at or before \<open>pos\<close>, and the children are fresh and lie in order between the
  start of the top node and \<open>pos\<close>; \<open>topOrd\<close> says so of the children the top node
  holds, \<open>memoOrd\<close> says of every memoized node without an error that it satisfies the
  invariant and is fresh.
\<close>

definition saveOrd :: "Result \<Rightarrow> int \<Rightarrow> Node list \<Rightarrow> bool" where
  "saveOrd r pos save =
     (Pos (hd (nodeStack r)) \<le> pos \<and>
      childrenInOrder (srclen r) (Pos (hd (nodeStack r))) pos save \<and> list_all fresh save)"

definition topOrd :: "Result \<Rightarrow> int \<Rightarrow> bool" where
  "topOrd r pos = saveOrd r pos (Children (hd (nodeStack r)))"

definition memoOrd :: "Result \<Rightarrow> bool" where
  "memoOrd r =
     (\<forall>pos name n. memo r (pos, name) = Some n \<and> Err n = None \<longrightarrow>
        nodeInRange (srclen r) n \<and> fresh n)"

text \<open>
  A matcher is tidy when it is sound and, started at \<open>pos\<close> with the children of the
  top node in order up to \<open>pos\<close>, keeps \<open>memoOrd\<close> and on success leaves them in
  order up to the position it has reached. A failing call may leave nodes behind.
\<close>

definition tidy :: "handler \<Rightarrow> bool" where
  "tidy h =
     (sound h \<and>
      (\<forall>r pos w e r'. wfState r \<and> memoOrd r \<and> topOrd r pos \<and> 0 \<le> pos \<and> pos \<le> srclen r \<and>
          h r pos = Some (Ret w e r') \<longrightarrow>
        memoOrd r' \<and> (e = None \<longrightarrow> topOrd r' (pos + w))))"

definition ctidy :: "cerror + handler \<Rightarrow> bool" where
  "ctidy c = (case c of Inl e \<Rightarrow> True | Inr h \<Rightarrow> tidy h)"

text \<open>
  A term is plain when no predicate (\<open>&\<close>, \<open>!\<close>) and no optional term (\<open>?\<close>)
  occurs in it; a grammar is plain when the right-hand sides of its rules are.
\<close>

fun plain :: "Term \<Rightarrow> bool" where
  "plain (TParens rhs) = list_all (list_all plain) rhs"
| "plain (TNegPred t) = False"
| "plain (TPred t) = False"
| "plain (TSpecial t c) = (c \<noteq> 63 \<and> plain t)"
| "plain (TCapture rhs) = list_all (list_all plain) rhs"
| "plain (TCharClass cc) = True"
| "plain (TLiteral l) = True"
| "plain (TIdent i) = True"

definition plainGrammar :: "Grammar \<Rightarrow> bool" where
  "plainGrammar g = (\<forall>ru \<in> ran (Rules g). list_all (list_all plain) (RHS ru))"

text \<open>The bytes of \<open>s\<close> from \<open>a\<close> up to \<open>b\<close>.\<close>

definition sub :: "string \<Rightarrow> int \<Rightarrow> int \<Rightarrow> string" where
  "sub s a b = take (nat (b - a)) (drop (nat a) s)"

text \<open>
  The iterations of the loop of star and plus, as the list of their widths and of the
  states they leave: each is a call of \<open>h\<close>, at the position the one before has
  reached, that succeeds with a width above 0 and leaves a top node. \<open>lastState\<close> is
  the state after the last of them and \<open>widths\<close> their sum.
\<close>

fun iterations :: "handler \<Rightarrow> int \<Rightarrow> Result \<Rightarrow> (int \<times> Result) list \<Rightarrow> bool" where
  "iterations h pos r [] = True"
| "iterations h pos r ((w, r1) # its) =
     (h r pos = Some (Ret w None r1) \<and> 0 < w \<and> nodeStack r1 \<noteq> [] \<and>
      iterations h (pos + w) r1 its)"

definition lastState :: "Result \<Rightarrow> (int \<times> Result) list \<Rightarrow> Result" where
  "lastState r its = (if its = [] then r else snd (last its))"

definition widths :: "(int \<times> Result) list \<Rightarrow> int" where
  "widths its = sum_list (map fst its)"

section \<open>Example grammars\<close>

text \<open>
  A library instance for running the examples: the parameters are fixed arbitrarily,
  none of the examples below depends on them.
\<close>

definition E0 :: golib where
  "E0 = \<lparr>IsLetter = (\<lambda>c. False), IsDigit = (\<lambda>c. False), IsNumber = (\<lambda>c. False),
     IsSpace = (\<lambda>c. False), IsLower = (\<lambda>c. False), IsUpper = (\<lambda>c. False),
     IsPunct = (\<lambda>c. False), IsPrint = (\<lambda>c. False), IsGraphic = (\<lambda>c. False),
     IsControl = (\<lambda>c. False), unicode_Is = (\<lambda>t c. False), Quote = (\<lambda>s. s),
     QuoteRune = (\<lambda>c. []), UnquoteChar = (\<lambda>s. None), RuneString = (\<lambda>c. [])\<rparr>"

definition defaultOptions :: ParserOptions where
  "defaultOptions =
     \<lparr>IgnoreUnconsumedTail = False, SkipEmptyNodes = False, LongErrorMessage = False\<rparr>"

text \<open>The grammar \<open>A <- 'x'*\<close> with \<open>IgnoreUnconsumedTail\<close> set.\<close>

definition ruleStar :: Rule where
  "ruleStar = \<lparr>Ident = ''A'', RHS = [[TSpecial (TLiteral ''x'') 42]]\<rparr>"

definition gStar :: Grammar where
  "gStar =
     \<lparr>Rules = [''A'' \<mapsto> ruleStar], RuleNames = [''A''],
      ParserOptions = \<lparr>IgnoreUnconsumedTail = True, SkipEmptyNodes = False,
                         LongErrorMessage = False\<rparr>\<rparr>"

text \<open>
  The grammar \<open>A <- &B C\<close>, \<open>B <- 'x'\<close>, \<open>C <- 'x'\<close> with the default options, and
  the tree its parse of \<open>x\<close> returns.
\<close>

definition ruleLookA :: Rule where
  "ruleLookA = \<lparr>Ident = ''A'', RHS = [[TPred (TIdent ''B''), TIdent ''C'']]\<rparr>"

definition ruleLookB :: Rule where
  "ruleLookB = \<lparr>Ident = ''B'', RHS = [[TLiteral ''x'']]\<rparr>"

definition ruleLookC :: Rule where
  "ruleLookC = \<lparr>Ident = ''C'', RHS = [[TLiteral ''x'']]\<rparr>"

definition gLook :: Grammar where
  "gLook =
     \<lparr>Rules = [''A'' \<mapsto> ruleLookA, ''B'' \<mapsto> ruleLookB, ''C'' \<mapsto> ruleLookC],
      RuleNames = [''A'', ''B'', ''C''], ParserOptions = defaultOptions\<rparr>"

definition lookTree :: Node where
  "lookTree =
     Node ''A'' [] [] 0 1 0 0
       [Node ''B'' [] [] 0 1 0 0 [] None [] [],
        Node ''C'' [] [] 0 1 0 0 [] None [] []] None [] []"

text \<open>
  The grammar \<open>A <- !B 'x'\<close>, \<open>B <- 'y'\<close> with the default options; the state in
  which the matcher of \<open>A\<close> calls \<open>apply\<close> on \<open>B\<close> (the fresh node of \<open>A\<close> on the
  stack); the node of the failed application of \<open>B\<close>.
\<close>

definition ruleNegA :: Rule where
  "ruleNegA = \<lparr>Ident = ''A'', RHS = [[TNegPred (TIdent ''B''), TLiteral ''x'']]\<rparr>"

definition ruleNegB :: Rule where
  "ruleNegB = \<lparr>Ident = ''B'', RHS = [[TLiteral ''y'']]\<rparr>"

definition gNeg :: Grammar where
  "gNeg =
     \<lparr>Rules = [''A'' \<mapsto> ruleNegA, ''B'' \<mapsto> ruleNegB],
      RuleNames = [''A'', ''B''], ParserOptions = defaultOptions\<rparr>"

definition negState :: Result where
  "negState = (newResult gNeg ''x'')\<lparr>nodeStack := [newNode ''A'' 0]\<rparr>"

definition failedB :: Node where
  "failedB = Node ''B'' [] [] 0 0 0 0 [] (Some (ExpectingLiteral ''y'' ''x'')) [] []"

text \<open>The class of the dot, \<open>[:any:]\<close>, and the class \<open>[a]\<close>.\<close>

definition anyClass :: CharClass where
  "anyClass = \<lparr>Map = None, RangeTable = None, Negated = False, Special = ''[:any:]''\<rparr>"

definition aClass :: CharClass where
  "aClass = \<lparr>Map = Some [(97, True)], RangeTable = None, Negated = False, Special = []\<rparr>"

definition negatedAlpha :: CharClass where
  "negatedAlpha = \<lparr>Map = None, RangeTable = None, Negated = True, Special = ''IsLetter''\<rparr>"

text \<open>
  A tree \<open>(Top (_) (A "a"))\<close> below a root, and two callbacks: both return nil for
  \<open>_\<close> and the captured text for \<open>A\<close>; at any other node the first reads the child
  \<open>A\<close> with \<open>String\<close>, the second reads nothing.
\<close>

definition strictOptions :: AccessorOptions where
  "strictOptions = \<lparr>ErrorOnUnusedChild = True\<rparr>"

definition leafA :: Node where
  "leafA = Node ''A'' ''a'' [] 0 0 0 0 [] None [] []"

definition topTree :: Node where
  "topTree = Node ''Top'' [] [] 0 0 0 0 [Node ''_'' [] [] 0 0 0 0 [] None [] [], leafA] None [] []"

definition rootTree :: Node where
  "rootTree = Node ''Root'' [] [] 0 0 0 0 [topTree] None [] []"

definition readingCallback :: "string \<Rightarrow> cbprog" where
  "readingCallback l =
     (if l = ''_'' then CbReturn None None
      else if l = ''A'' then CbNode (\<lambda>n. CbReturn (Some (VString (Text n))) None)
      else CbString ''A'' (\<lambda>s. CbReturn (Some (VNamed ''Top'' 0)) None))"

definition idleCallback :: "string \<Rightarrow> cbprog" where
  "idleCallback l =
     (if l = ''_'' then CbReturn None None
      else if l = ''A'' then CbNode (\<lambda>n. CbReturn (Some (VString (Text n))) None)
      else CbReturn (Some (VNamed ''Top'' 0)) None)"

text \<open>The state of a rule application on the input \<open>xxy\<close>, with a fresh node of \<open>A\<close>.\<close>

definition starState :: Result where
  "starState = (newResult gStar ''xxy'')\<lparr>nodeStack := [newNode ''A'' 0]\<rparr>"

text \<open>
  The grammar \<open>A <- B+ 'y'\<close>, \<open>B <- 'x'\<close> with the default options, and the tree
  its parse of \<open>xxy\<close> returns.
\<close>

definition rulePlainA :: Rule where
  "rulePlainA = \<lparr>Ident = ''A'', RHS = [[TSpecial (TIdent ''B'') 43, TLiteral ''y'']]\<rparr>"

definition rulePlainB :: Rule where
  "rulePlainB = \<lparr>Ident = ''B'', RHS = [[TLiteral ''x'']]\<rparr>"

definition gPlain :: Grammar where
  "gPlain =
     \<lparr>Rules = [''A'' \<mapsto> rulePlainA, ''B'' \<mapsto> rulePlainB],
      RuleNames = [''A'', ''B''], ParserOptions = defaultOptions\<rparr>"

definition plainTree :: Node where
  "plainTree =
     Node ''A'' [] [] 0 3 0 0
       [Node ''B'' [] [] 0 1 0 0 [] None [] [],
        Node ''B'' [] [] 1 1 0 0 [] None [] []] None [] []"

text \<open>
  A matcher that succeeds with width 1 at every position, whatever the input; the
  left-recursive grammar \<open>A <- A*\<close>; the term \<open>('x' 'y')\<close> with its matcher, and
  the state of a rule application on the input \<open>xyxyx\<close>.
\<close>

definition stepOne :: handler where
  "stepOne = (\<lambda>r pos. Some (Ret 1 None r))"

definition ruleLeft :: Rule where
  "ruleLeft = \<lparr>Ident = ''A'', RHS = [[TSpecial (TIdent ''A'') 42]]\<rparr>"

definition gLeft :: Grammar where
  "gLeft = \<lparr>Rules = [''A'' \<mapsto> ruleLeft], RuleNames = [''A''], ParserOptions = defaultOptions\<rparr>"

definition pairTerm :: Term where
  "pairTerm = TParens [[TLiteral ''x'', TLiteral ''y'']]"

definition pairHandler :: handler where
  "pairHandler = groupHandler [makeLiteralHandler ''x'', makeLiteralHandler ''y'']"

definition pairState :: Result where
  "pairState = (newResult gStar ''xyxyx'')\<lparr>nodeStack := [newNode ''A'' 0]\<rparr>"

section \<open>Evaluation\<close>

lemmas handler_defs =
  makeRHSHandler_def makeGroupHandler_def groupOf_def rhsOf_def makeSpecialHandler_def
  makeStarHandler_def makePlusHandler_def makeQuestionHandler_def makePredicateHandler_def
  makeLiteralHandler_def makeCaptureHandler_def makeRuleHandler_def groupHandler_def
  choiceHandler_def makeCharClassHandler_def

lemmas state_defs =
  Result_apply_def Attach_def TopNode_def setTopChildren_def newNode_def setChildren_def
  setText_def setLenErr_def newResult_def slice_def Let_def

section \<open>The top-level checks of Parse\<close>

text \<open>
  C4. If the application of the start rule at position 0 succeeds with width 0 and the
  input is not empty, \<open>Parse\<close> returns the error "Grammar matched 0 characters"
  (\<open>MatchedZero\<close>, carrying \<open>fyiError\<close>) together with the result. The grammar and so
  its options are arbitrary: the check comes before the test of
  \<open>IgnoreUnconsumedTail\<close>, which cannot suppress it.
\<close>

theorem Parse_zero_width_is_error:
  assumes "RuleNames g = topRule # rest"
    and "Rules g topRule = Some tr"
    and "Result_apply (ruleHandler E g n tr) (Ident tr) (newResult g input) 0
           = Some (Ret 0 None r)"
    and "input \<noteq> []"
  shows "Parse E n g input = Some (PRet (Some r) (Some (MatchedZero (fyiError r))))"
  using assms by (simp add: Parse_def afterApply_def)

lemma gStar_apply:
  "\<exists>r. Result_apply (ruleHandler E0 gStar (Suc 0) ruleStar) (Ident ruleStar)
         (newResult gStar ''y'') 0 = Some (Ret 0 None r)"
  by (simp add: handler_defs state_defs repeatLoop.simps gStar_def ruleStar_def)

theorem Parse_zero_width_is_error_witness:
  "IgnoreUnconsumedTail (ParserOptions gStar) \<and>
   (\<exists>r. Parse E0 (Suc 0) gStar ''y''
          = Some (PRet (Some r) (Some (MatchedZero (fyiError r)))))"
proof -
  have names: "RuleNames gStar = ''A'' # []" by (simp add: gStar_def)
  have top: "Rules gStar ''A'' = Some ruleStar" by (simp add: gStar_def)
  obtain r where run:
    "Result_apply (ruleHandler E0 gStar (Suc 0) ruleStar) (Ident ruleStar)
       (newResult gStar ''y'') 0 = Some (Ret 0 None r)"
    using gStar_apply by blast
  have nonempty: "''y'' \<noteq> []" by simp
  have "Parse E0 (Suc 0) gStar ''y'' = Some (PRet (Some r) (Some (MatchedZero (fyiError r))))"
    by (rule Parse_zero_width_is_error [OF names top run nonempty])
  moreover have "IgnoreUnconsumedTail (ParserOptions gStar)" by (simp add: gStar_def)
  ultimately show ?thesis by blast
qed

section \<open>Rule application and the memo table\<close>

lemma Attach_memo: "Attach r n = Some r' \<Longrightarrow> memo r' = memo r"
  by (auto simp: Attach_def split: if_splits list.splits)

text \<open>
  What \<open>apply\<close> does with the memo table. With an entry for \<open>(pos, ru)\<close> it does not
  run the rule's matcher: its result is the same for every matcher \<open>h\<close>, \<open>h'\<close>. A
  cached error is returned with the cached length and the state is unchanged; a cached
  success is attached again (\<open>Attach\<close>) and its length returned. Without an entry the
  matcher runs on the state with a fresh node on the stack, labelled with the rule's
  name at \<open>pos\<close>; the popped node with the resulting length and error is stored in
  the memo table, and after a success it is attached.
\<close>

theorem Result_apply_memo:
  "(memo r (pos, ident) = Some n \<longrightarrow>
      Result_apply h ident r pos = Result_apply h' ident r pos) \<and>
   (memo r (pos, ident) = Some n \<and> Err n = Some e \<longrightarrow>
      Result_apply h ident r pos = Some (Ret (Len n) (Some e) r)) \<and>
   (memo r (pos, ident) = Some n \<and> Err n = None \<and> Attach r n = Some r' \<longrightarrow>
      Result_apply h ident r pos = Some (Ret (Len n) None r')) \<and>
   (memo r (pos, ident) = None \<and>
    h (r\<lparr>nodeStack := newNode ident pos # nodeStack r\<rparr>) pos = Some (Ret w hErr r2) \<and>
    nodeStack r2 = m # ns \<and> Result_apply h ident r pos = Some (Ret w' e' r4) \<longrightarrow>
      w' = w \<and> e' = hErr \<and> memo r4 (pos, ident) = Some (setLenErr m w hErr) \<and>
      Len (setLenErr m w hErr) = w \<and> Err (setLenErr m w hErr) = hErr \<and>
      Label (newNode ident pos) = ident \<and> Pos (newNode ident pos) = pos) \<and>
   (memo r (pos, ident) = None \<and>
    h (r\<lparr>nodeStack := newNode ident pos # nodeStack r\<rparr>) pos = Some (Ret w None r2) \<and>
    nodeStack r2 = m # ns \<and>
    Attach (r2\<lparr>nodeStack := ns, memo := (memo r2)((pos, ident) \<mapsto> setLenErr m w None)\<rparr>)
      (setLenErr m w None) = Some r5 \<longrightarrow>
      Result_apply h ident r pos = Some (Ret w None r5))"
proof -
  have c1: "memo r (pos, ident) = Some n \<longrightarrow>
      Result_apply h ident r pos = Result_apply h' ident r pos"
    by (simp add: Result_apply_def)
  have c2: "memo r (pos, ident) = Some n \<and> Err n = Some e \<longrightarrow>
      Result_apply h ident r pos = Some (Ret (Len n) (Some e) r)"
    by (simp add: Result_apply_def)
  have c3: "memo r (pos, ident) = Some n \<and> Err n = None \<and> Attach r n = Some r' \<longrightarrow>
      Result_apply h ident r pos = Some (Ret (Len n) None r')"
    by (simp add: Result_apply_def)
  have c4: "memo r (pos, ident) = None \<and>
    h (r\<lparr>nodeStack := newNode ident pos # nodeStack r\<rparr>) pos = Some (Ret w hErr r2) \<and>
    nodeStack r2 = m # ns \<and> Result_apply h ident r pos = Some (Ret w' e' r4) \<longrightarrow>
      w' = w \<and> e' = hErr \<and> memo r4 (pos, ident) = Some (setLenErr m w hErr) \<and>
      Len (setLenErr m w hErr) = w \<and> Err (setLenErr m w hErr) = hErr \<and>
      Label (newNode ident pos) = ident \<and> Pos (newNode ident pos) = pos"
  proof
    assume a: "memo r (pos, ident) = None \<and>
      h (r\<lparr>nodeStack := newNode ident pos # nodeStack r\<rparr>) pos = Some (Ret w hErr r2) \<and>
      nodeStack r2 = m # ns \<and> Result_apply h ident r pos = Some (Ret w' e' r4)"
    let ?n = "setLenErr m w hErr"
    from a have att:
      "Attach (r2\<lparr>nodeStack := ns, memo := (memo r2)((pos, ident) \<mapsto> ?n)\<rparr>) ?n = Some r4"
      and out: "w' = w" "e' = hErr"
      by (auto simp: Result_apply_def Let_def split: option.splits)
    from Attach_memo [OF att] have "memo r4 (pos, ident) = Some ?n" by simp
    with out show "w' = w \<and> e' = hErr \<and> memo r4 (pos, ident) = Some (setLenErr m w hErr) \<and>
        Len (setLenErr m w hErr) = w \<and> Err (setLenErr m w hErr) = hErr \<and>
        Label (newNode ident pos) = ident \<and> Pos (newNode ident pos) = pos"
      by (simp add: setLenErr_def newNode_def)
  qed
  have c5: "memo r (pos, ident) = None \<and>
    h (r\<lparr>nodeStack := newNode ident pos # nodeStack r\<rparr>) pos = Some (Ret w None r2) \<and>
    nodeStack r2 = m # ns \<and>
    Attach (r2\<lparr>nodeStack := ns, memo := (memo r2)((pos, ident) \<mapsto> setLenErr m w None)\<rparr>)
      (setLenErr m w None) = Some r5 \<longrightarrow>
      Result_apply h ident r pos = Some (Ret w None r5)"
    by (simp add: Result_apply_def Let_def)
  show ?thesis by (rule conjI [OF c1 conjI [OF c2 conjI [OF c3 conjI [OF c4 c5]]]])
qed

text \<open>
  The statement at concrete states: a cached failure of \<open>B\<close> at 0, a cached success
  of \<open>B\<close> at 0 (the lookahead grammar, second application), and a first application.
\<close>

definition cachedB :: Node where
  "cachedB = Node ''B'' [] [] 0 1 0 0 [] None [] []"

definition hitState :: "Node \<Rightarrow> Result" where
  "hitState n =
     (newResult gLook ''x'')\<lparr>nodeStack := [newNode ''A'' 0], memo := [(0, ''B'') \<mapsto> n]\<rparr>"

theorem Result_apply_memo_witness:
  "Result_apply (\<lambda>r pos. None) ''B'' (hitState failedB) 0
     = Some (Ret 0 (Some (ExpectingLiteral ''y'' ''x'')) (hitState failedB)) \<and>
   Result_apply (\<lambda>r pos. None) ''B'' (hitState cachedB) 0
     = Some (Ret 1 None ((hitState cachedB)\<lparr>nodeStack :=
          [Node ''A'' [] [] 0 0 0 0 [cachedB] None [] []]\<rparr>)) \<and>
   (\<exists>r4. Result_apply (makeLiteralHandler ''x'') ''B''
            ((newResult gLook ''x'')\<lparr>nodeStack := [newNode ''A'' 0]\<rparr>) 0
          = Some (Ret 1 None r4) \<and> memo r4 (0, ''B'') = Some cachedB)"
proof -
  have hit: "memo (hitState n) (0, ''B'') = Some n" for n
    by (simp add: hitState_def)
  have "Err failedB = Some (ExpectingLiteral ''y'' ''x'')" "Len failedB = 0"
    by (simp_all add: failedB_def)
  with Result_apply_memo [of "hitState failedB" 0 "''B''" failedB "\<lambda>r pos. None" _
      "ExpectingLiteral ''y'' ''x''"] hit
  have a: "Result_apply (\<lambda>r pos. None) ''B'' (hitState failedB) 0
     = Some (Ret 0 (Some (ExpectingLiteral ''y'' ''x'')) (hitState failedB))"
    by simp
  have att: "Attach (hitState cachedB) cachedB
     = Some ((hitState cachedB)\<lparr>nodeStack := [Node ''A'' [] [] 0 0 0 0 [cachedB] None [] []]\<rparr>)"
    by (simp add: Attach_def hitState_def cachedB_def newResult_def gLook_def
        defaultOptions_def newNode_def setChildren_def)
  have "Err cachedB = None" "Len cachedB = 1"
    by (simp_all add: cachedB_def)
  with Result_apply_memo [of "hitState cachedB" 0 "''B''" cachedB "\<lambda>r pos. None" _ _
      "(hitState cachedB)\<lparr>nodeStack := [Node ''A'' [] [] 0 0 0 0 [cachedB] None [] []]\<rparr>"]
    hit att
  have b: "Result_apply (\<lambda>r pos. None) ''B'' (hitState cachedB) 0
     = Some (Ret 1 None ((hitState cachedB)\<lparr>nodeStack :=
          [Node ''A'' [] [] 0 0 0 0 [cachedB] None [] []]\<rparr>))"
    by simp
  let ?r = "(newResult gLook ''x'')\<lparr>nodeStack := [newNode ''A'' 0]\<rparr>"
  let ?r2 = "?r\<lparr>nodeStack := newNode ''B'' 0 # nodeStack ?r\<rparr>"
  have miss: "memo ?r (0, ''B'') = None" by (simp add: newResult_def)
  have run: "makeLiteralHandler ''x'' ?r2 0 = Some (Ret 1 None ?r2)"
    by (simp add: makeLiteralHandler_def newResult_def slice_def)
  have stack: "nodeStack ?r2 = newNode ''B'' 0 # [newNode ''A'' 0]" by simp
  have node: "setLenErr (newNode ''B'' 0) 1 None = cachedB"
    by (simp add: setLenErr_def newNode_def cachedB_def)
  obtain r4 where att2:
    "Attach (?r2\<lparr>nodeStack := [newNode ''A'' 0],
               memo := (memo ?r2)((0, ''B'') \<mapsto> setLenErr (newNode ''B'' 0) 1 None)\<rparr>)
       (setLenErr (newNode ''B'' 0) 1 None) = Some r4"
    by (simp add: Attach_def newResult_def gLook_def defaultOptions_def)
  note m = Result_apply_memo [of ?r 0 "''B''" _ "makeLiteralHandler ''x''" _ _ _ 1 None ?r2
      "newNode ''B'' 0" "[newNode ''A'' 0]" 1 None r4 r4]
  from m [THEN conjunct2, THEN conjunct2, THEN conjunct2, THEN conjunct2] miss run stack att2
  have c1: "Result_apply (makeLiteralHandler ''x'') ''B'' ?r 0 = Some (Ret 1 None r4)"
    by blast
  from m [THEN conjunct2, THEN conjunct2, THEN conjunct2, THEN conjunct1] miss run stack c1
  have "memo r4 (0, ''B'') = Some (setLenErr (newNode ''B'' 0) 1 None)"
    by blast
  with c1 node
  have c: "Result_apply (makeLiteralHandler ''x'') ''B'' ?r 0 = Some (Ret 1 None r4) \<and>
           memo r4 (0, ''B'') = Some cachedB"
    by simp
  from a b c show ?thesis by blast
qed

text \<open>
  C6, at the grammar \<open>A <- !B 'x'\<close>, \<open>B <- 'y'\<close> and the input \<open>x\<close>. The first
  application of \<open>B\<close> at 0, with no entry in the memo table, fails; it stores the
  failed node in the memo table and appends it to the children of \<open>A\<close>, although the
  application did not succeed. The application of \<open>B\<close> at 0 on the state that holds
  this entry returns the same error and attaches nothing.
\<close>

theorem Result_apply_first_failure_attaches:
  "\<exists>r1. memo negState (0, ''B'') = None \<and>
     Result_apply (ruleHandler E0 gNeg (Suc 0) ruleNegB) (Ident ruleNegB) negState 0
       = Some (Ret 0 (Some (ExpectingLiteral ''y'' ''x'')) r1) \<and>
     memo r1 (0, ''B'') = Some failedB \<and>
     map Children (nodeStack negState) = [[]] \<and>
     map Children (nodeStack r1) = [[failedB]] \<and>
     Result_apply (ruleHandler E0 gNeg (Suc 0) ruleNegB) (Ident ruleNegB)
         (negState\<lparr>memo := [(0, ''B'') \<mapsto> failedB]\<rparr>) 0
       = Some (Ret 0 (Some (ExpectingLiteral ''y'' ''x''))
           (negState\<lparr>memo := [(0, ''B'') \<mapsto> failedB]\<rparr>))"
  by (simp add: handler_defs state_defs gNeg_def ruleNegB_def negState_def failedB_def
      defaultOptions_def)

section \<open>Trees of successful parses\<close>

lemma gLook_parse:
  "\<exists>r. Parse E0 (Suc (Suc 0)) gLook ''x'' = Some (PRet (Some r) None) \<and>
        Tree r = Some lookTree \<and> Source r = ''x''"
  by (simp add: Parse_def afterApply_def handler_defs state_defs gLook_def ruleLookA_def
      ruleLookB_def ruleLookC_def defaultOptions_def lookTree_def)

text \<open>
  C2, at the lookahead grammar and the input \<open>x\<close>: the parse succeeds, and the tree
  it returns has two children of the root that both cover the byte range \<open>[0, 1)\<close>, the
  node attached inside the predicate \<open>&B\<close> and the node of \<open>C\<close>. The tree does not
  satisfy the invariant.
\<close>

theorem Parse_children_overlap:
  "\<exists>r. Parse E0 (Suc (Suc 0)) gLook ''x'' = Some (PRet (Some r) None) \<and>
        Tree r = Some lookTree \<and> \<not> nodeInRange (int (length ''x'')) lookTree"
proof -
  have "\<not> nodeInRange (int (length ''x'')) lookTree"
    by (simp add: lookTree_def)
  with gLook_parse show ?thesis by blast
qed

text \<open>
  C1, at the same grammar and input: the parse succeeds with the default options, and
  \<open>ComputeContent\<close> on its result does not return (the slice \<open>Source[1:0]\<close> before the
  second child panics), so no content is reconstructed.
\<close>

theorem ComputeContent_panics_after_lookahead:
  "\<exists>r. Parse E0 (Suc (Suc 0)) gLook ''x'' = Some (PRet (Some r) None) \<and>
        ParserOptions gLook = defaultOptions \<and> ComputeContent r = None"
proof -
  have "computeContent ''x'' lookTree 0 1 0 = None"
    by (simp add: lookTree_def slice_def)
  then have "\<And>r. Tree r = Some lookTree \<Longrightarrow> Source r = ''x'' \<Longrightarrow> ComputeContent r = None"
    by (simp add: ComputeContent_def)
  moreover have "ParserOptions gLook = defaultOptions" by (simp add: gLook_def)
  ultimately show ?thesis using gLook_parse by blast
qed

section \<open>The node stack across a rule application\<close>

text \<open>
  C10, at the grammar \<open>A <- !B 'x'\<close>, \<open>B <- 'y'\<close> and the input \<open>x\<close>: the
  application of \<open>B\<close> at 0 inside the predicate fails, the stack is back at its entry
  length with the node of \<open>A\<close> on top, and the node of the failed application has been
  appended to the children of \<open>A\<close>.
\<close>

theorem Result_apply_attaches_failed_node:
  "\<exists>r'. Result_apply (ruleHandler E0 gNeg (Suc 0) ruleNegB) (Ident ruleNegB) negState 0
          = Some (Ret 0 (Some (ExpectingLiteral ''y'' ''x'')) r') \<and>
        map Label (nodeStack negState) = [''A''] \<and>
        map Children (nodeStack negState) = [[]] \<and>
        map Label (nodeStack r') = [''A''] \<and>
        map Children (nodeStack r') = [[failedB]]"
  by (simp add: handler_defs state_defs gNeg_def ruleNegB_def negState_def failedB_def
      defaultOptions_def)

lemma gNeg_parse:
  "\<exists>r. Parse E0 (Suc (Suc 0)) gNeg ''x'' = Some (PRet (Some r) None) \<and>
        Tree r = Some (Node ''A'' [] [] 0 1 0 0 [failedB] None [] [])"
  by (simp add: Parse_def afterApply_def handler_defs state_defs gNeg_def ruleNegA_def
      ruleNegB_def defaultOptions_def failedB_def)

section \<open>Character classes\<close>

text \<open>
  C3, at the class \<open>^[:alpha:]\<close>: \<open>Parse\<close> gives the negated special class, \<open>String\<close>
  prints it as \<open>[:alpha:]\<close> without the caret (the loop over \<open>specialClasses\<close> returns
  the key and drops what was collected), and parsing that string gives a class that is
  not negated.
\<close>

theorem charclass_negated_special_not_printed:
  "charclass_Parse E ''^[:alpha:]'' = Some (CCOk negatedAlpha) \<and>
   CharClass_String E negatedAlpha = ''[:alpha:]'' \<and>
   charclass_Parse E (CharClass_String E negatedAlpha)
     = Some (CCOk (negatedAlpha\<lparr>Negated := False\<rparr>)) \<and>
   negatedAlpha\<lparr>Negated := False\<rparr> \<noteq> negatedAlpha"
  by (simp add: CharClass_String_def specialClasses_def negatedAlpha_def)

text \<open>
  C5, at the class of the dot and the input of the single byte \<open>0xFF\<close>: decoding
  gives the replacement rune with width 1, and the matcher of the special class succeeds
  consuming that byte; the matcher of a class of scalars fails there with
  "expecting utf-8 char, got RuneError".
\<close>

theorem any_class_accepts_invalid_byte:
  "DecodeRuneInString [CHR 0xFF] = (RuneError, 1) \<and>
   makeCharClassHandler E anyClass (newResult g [CHR 0xFF]) 0
     = Some (Ret 1 None (newResult g [CHR 0xFF])) \<and>
   makeCharClassHandler E aClass (newResult g [CHR 0xFF]) 0
     = Some (Ret 0 (Some ExpectingUtf8GotRuneError) (newResult g [CHR 0xFF]))"
  by (simp add: makeCharClassHandler_def anyClass_def aClass_def newResult_def slice_def
      DecodeRuneInString_def RuneError_def specialMatch_def)

section \<open>Independence of the depth bound\<close>

text \<open>
  A matcher \<open>h'\<close> extends \<open>h\<close> when every call that returns under \<open>h\<close> returns the
  same under \<open>h'\<close>. Every matcher combinator preserves this order, so a rule's matcher
  with a larger depth bound extends the one with a smaller bound.
\<close>

lemma hleD: "hle h h' \<Longrightarrow> h r pos = Some x \<Longrightarrow> h' r pos = Some x"
  by (simp add: hle_def)

lemma hleI: "(\<And>r pos x. h r pos = Some x \<Longrightarrow> h' r pos = Some x) \<Longrightarrow> hle h h'"
  by (simp add: hle_def)

lemma hle_refl: "hle h h"
  by (simp add: hle_def)

lemma repeatLoop_mono_all:
  assumes run: "repeatLoop h pos ww save r = Some y"
  shows "\<forall>h'. hle h h' \<longrightarrow> repeatLoop h' pos ww save r = Some y"
proof (rule repeatLoop.raw_induct
    [where P = "\<lambda>h pos ww save r y. \<forall>h'. hle h h' \<longrightarrow> repeatLoop h' pos ww save r = Some y",
      OF _ run])
  fix rl :: "handler \<Rightarrow> int \<Rightarrow> int \<Rightarrow> Node list \<Rightarrow> Result \<Rightarrow> hres option"
    and h pos ww save r y
  assume IH: "\<And>h pos ww save r y. rl h pos ww save r = Some y \<Longrightarrow>
                \<forall>h'. hle h h' \<longrightarrow> repeatLoop h' pos ww save r = Some y"
    and step: "(case h r (pos + ww) of
                  None \<Rightarrow> None
                | Some Exit \<Rightarrow> Some Exit
                | Some (Ret w err r1) \<Rightarrow>
                    if err = None \<and> 0 < w
                    then (case TopNode r1 of
                            None \<Rightarrow> Some Exit
                          | Some tn \<Rightarrow> rl h pos (ww + w) (Children tn) r1)
                    else (case setTopChildren r1 save of
                            None \<Rightarrow> Some Exit
                          | Some r2 \<Rightarrow> Some (Ret ww err r2))) = Some y"
  show "\<forall>h'. hle h h' \<longrightarrow> repeatLoop h' pos ww save r = Some y"
  proof (intro allI impI)
    fix h'
    assume le: "hle h h'"
    from step obtain x where x: "h r (pos + ww) = Some x"
      by (cases "h r (pos + ww)") auto
    from hleD [OF le x] have x': "h' r (pos + ww) = Some x" .
    show "repeatLoop h' pos ww save r = Some y"
    proof (cases x)
      case Exit
      with x x' step show ?thesis by (subst repeatLoop.simps) simp
    next
      case (Ret w err r1)
      show ?thesis
      proof (cases "err = None \<and> 0 < w")
        case False
        with Ret x x' step show ?thesis by (subst repeatLoop.simps) auto
      next
        case True
        show ?thesis
        proof (cases "TopNode r1")
          case None
          with True Ret x x' step show ?thesis by (subst repeatLoop.simps) auto
        next
          case (Some tn)
          with True Ret x step have "rl h pos (ww + w) (Children tn) r1 = Some y" by auto
          from IH [OF this] le have "repeatLoop h' pos (ww + w) (Children tn) r1 = Some y"
            by blast
          with Some True Ret x' show ?thesis by (subst repeatLoop.simps) auto
        qed
      qed
    qed
  qed
qed

lemma repeatLoop_mono:
  "repeatLoop h pos ww save r = Some y \<Longrightarrow> hle h h' \<Longrightarrow> repeatLoop h' pos ww save r = Some y"
  using repeatLoop_mono_all by blast

lemma star_mono:
  assumes "hle h h'"
  shows "hle (makeStarHandler h) (makeStarHandler h')"
  by (rule hleI)
    (auto simp: makeStarHandler_def split: option.splits hres.splits
      dest!: repeatLoop_mono [OF _ assms])

lemma plus_mono:
  assumes "hle h h'"
  shows "hle (makePlusHandler h) (makePlusHandler h')"
  by (rule hleI)
    (auto simp: makePlusHandler_def split: option.splits hres.splits
      dest!: repeatLoop_mono [OF _ assms] hleD [OF assms])

lemma question_mono:
  assumes "hle h h'"
  shows "hle (makeQuestionHandler h) (makeQuestionHandler h')"
  by (rule hleI)
    (auto simp: makeQuestionHandler_def split: option.splits hres.splits dest!: hleD [OF assms])

lemma predicate_mono:
  assumes "hle h h'"
  shows "hle (makePredicateHandler h p) (makePredicateHandler h' p)"
  by (rule hleI)
    (auto simp: makePredicateHandler_def split: option.splits hres.splits if_splits
      dest!: hleD [OF assms])

lemma capture_mono:
  assumes "hle h h'"
  shows "hle (makeCaptureHandler h) (makeCaptureHandler h')"
  by (rule hleI)
    (auto simp: makeCaptureHandler_def split: option.splits hres.splits list.splits
      dest!: hleD [OF assms])

lemma apply_mono:
  assumes "hle h h'"
  shows "hle (Result_apply h ident) (Result_apply h' ident)"
  by (rule hleI)
    (auto simp: Result_apply_def Let_def split: option.splits hres.splits list.splits
      dest!: hleD [OF assms])

lemma groupLoop_mono:
  "list_all2 hle hs hs' \<Longrightarrow> groupLoop hs pos ww r = Some x \<Longrightarrow> groupLoop hs' pos ww r = Some x"
proof (induction hs hs' arbitrary: ww r rule: list_all2_induct)
  case Nil
  then show ?case by simp
next
  case (Cons h hs h' hs')
  from Cons.prems Cons.IH hleD [OF Cons.hyps(1)] show ?case
    by (auto split: option.splits hres.splits)
qed

lemma choiceLoop_mono:
  "list_all2 khle hs hs' \<Longrightarrow> choiceLoop rhs hs save pos errMap w r = Some x \<Longrightarrow>
   choiceLoop rhs hs' save pos errMap w r = Some x"
proof (induction hs hs' arbitrary: errMap w r rule: list_all2_induct)
  case Nil
  then show ?case by simp
next
  case (Cons kh hs kh' hs')
  obtain k h where kh: "kh = (k, h)" by (cases kh)
  with Cons.hyps(1) obtain h' where kh': "kh' = (k, h')" and le: "hle h h'"
    by (cases kh') (auto simp: khle_def)
  from Cons.prems Cons.IH hleD [OF le] show ?case
    unfolding kh kh'
    by (auto split: option.splits hres.splits)
qed

lemma groupHandler_mono: "list_all2 hle hs hs' \<Longrightarrow> hle (groupHandler hs) (groupHandler hs')"
  by (rule hleI) (auto simp: groupHandler_def dest: groupLoop_mono)

lemma choiceHandler_mono:
  assumes "list_all2 khle hs hs'"
  shows "hle (choiceHandler rhs hs) (choiceHandler rhs hs')"
proof (cases hs)
  case Nil
  with assms show ?thesis by (auto intro!: hleI simp: choiceHandler_def)
next
  case (Cons kh rest)
  with assms obtain kh' rest' where hs': "hs' = kh' # rest'" and k: "khle kh kh'"
    and rest: "list_all2 khle rest rest'"
    by (auto simp: list_all2_Cons1)
  obtain k h where kh: "kh = (k, h)" by (cases kh)
  with k obtain h' where kh': "kh' = (k, h')" and le: "hle h h'"
    by (cases kh') (auto simp: khle_def)
  show ?thesis
    unfolding Cons hs' kh kh'
    by (rule hleI)
      (auto simp: choiceHandler_def split: option.splits hres.splits
        dest!: hleD [OF le] choiceLoop_mono [OF rest])
qed


lemma collect_rel:
  "list_all2 (rel_sum (=) R) xs ys \<Longrightarrow> rel_sum (=) (list_all2 R) (collect xs) (collect ys)"
proof (induction xs ys rule: list_all2_induct)
  case Nil
  then show ?case by simp
next
  case (Cons x xs y ys)
  then show ?case
    by (cases x; cases y; cases "collect xs"; cases "collect ys") auto
qed

lemma groupOf_mono:
  assumes "list_all2 (rel_sum (=) hle) cs cs'"
  shows "rel_sum (=) hle (groupOf cs) (groupOf cs')"
proof -
  from collect_rel [OF assms] have c: "rel_sum (=) (list_all2 hle) (collect cs) (collect cs')" .
  have other: "rel_sum (=) hle
      (case collect cs of Inl e \<Rightarrow> Inl e | Inr hh \<Rightarrow> Inr (groupHandler hh))
      (case collect cs' of Inl e \<Rightarrow> Inl e | Inr hh \<Rightarrow> Inr (groupHandler hh))"
    using c by (cases "collect cs"; cases "collect cs'") (auto intro: groupHandler_mono)
  from assms other show ?thesis
    by (cases cs; cases cs'; cases "tl cs"; cases "tl cs'") (auto simp: groupOf_def)
qed

lemma zip_khle: "list_all2 hle hh hh' \<Longrightarrow> list_all2 khle (zip ks hh) (zip ks hh')"
proof (induction hh hh' arbitrary: ks rule: list_all2_induct)
  case Nil
  then show ?case by simp
next
  case (Cons h hh h' hh')
  then show ?case by (cases ks) (auto simp: khle_def)
qed

lemma rhsOf_mono:
  assumes "list_all2 (rel_sum (=) hle) cs cs'"
  shows "rel_sum (=) hle (rhsOf E choices cs) (rhsOf E choices cs')"
proof -
  from collect_rel [OF assms] have c: "rel_sum (=) (list_all2 hle) (collect cs) (collect cs')" .
  have other: "rel_sum (=) hle
      (case collect cs of Inl e \<Rightarrow> Inl e
       | Inr hh \<Rightarrow> Inr (choiceHandler choices (zip (map (groupToString E) choices) hh)))
      (case collect cs' of Inl e \<Rightarrow> Inl e
       | Inr hh \<Rightarrow> Inr (choiceHandler choices (zip (map (groupToString E) choices) hh)))"
    using c by (cases "collect cs"; cases "collect cs'") (auto intro: choiceHandler_mono zip_khle)
  from assms other show ?thesis
    by (cases cs; cases cs'; cases "tl cs"; cases "tl cs'") (auto simp: rhsOf_def)
qed

lemma makeSpecialHandler_mono:
  "hle h h' \<Longrightarrow> rel_sum (=) hle (makeSpecialHandler h c) (makeSpecialHandler h' c)"
  by (auto simp: makeSpecialHandler_def intro: star_mono plus_mono question_mono)

lemma makeRuleHandler_mono:
  "(\<And>ru. hle (rh ru) (rh' ru)) \<Longrightarrow>
   rel_sum (=) hle (makeRuleHandler g rh name) (makeRuleHandler g rh' name)"
  by (auto simp: makeRuleHandler_def intro: apply_mono split: option.splits)

lemma rel_sum_case:
  "rel_sum (=) hle a b \<Longrightarrow> (\<And>h h'. hle h h' \<Longrightarrow> hle (f h) (f h')) \<Longrightarrow>
   rel_sum (=) hle (case a of Inl e \<Rightarrow> Inl e | Inr h \<Rightarrow> Inr (f h))
                  (case b of Inl e \<Rightarrow> Inl e | Inr h \<Rightarrow> Inr (f h))"
  by (cases a; cases b) auto

lemma makeTermHandler_mono:
  assumes "\<And>ru. hle (rh ru) (rh' ru)"
  shows "rel_sum (=) hle (makeTermHandler E g rh t) (makeTermHandler E g rh' t)"
proof (induction t)
  case (TParens rhs)
  have "list_all2 (rel_sum (=) hle)
          (map (\<lambda>ts. groupOf (map (makeTermHandler E g rh) ts)) rhs)
          (map (\<lambda>ts. groupOf (map (makeTermHandler E g rh') ts)) rhs)"
    using TParens by (auto simp: list_all2_map1 list_all2_map2 intro!: list_all2_refl groupOf_mono list.rel_refl_strong)
  then show ?case by (auto intro: rhsOf_mono)
next
  case (TNegPred t)
  then show ?case by (auto intro!: rel_sum_case predicate_mono)
next
  case (TPred t)
  then show ?case by (auto intro!: rel_sum_case predicate_mono)
next
  case (TSpecial t c)
  then show ?case
    by (cases "makeTermHandler E g rh t"; cases "makeTermHandler E g rh' t")
      (auto intro: makeSpecialHandler_mono)
next
  case (TCapture rhs)
  have "list_all2 (rel_sum (=) hle)
          (map (\<lambda>ts. groupOf (map (makeTermHandler E g rh) ts)) rhs)
          (map (\<lambda>ts. groupOf (map (makeTermHandler E g rh') ts)) rhs)"
    using TCapture by (auto simp: list_all2_map1 list_all2_map2 intro!: list_all2_refl groupOf_mono list.rel_refl_strong)
  then show ?case by (auto intro!: rel_sum_case capture_mono rhsOf_mono)
next
  case (TCharClass cc)
  then show ?case by (simp add: hle_refl)
next
  case (TLiteral l)
  then show ?case by (simp add: hle_refl)
next
  case (TIdent i)
  then show ?case using assms by (auto intro: makeRuleHandler_mono)
qed

lemma makeRHSHandler_mono:
  assumes "\<And>ru. hle (rh ru) (rh' ru)"
  shows "rel_sum (=) hle (makeRHSHandler E g rh rhs) (makeRHSHandler E g rh' rhs)"
  unfolding makeRHSHandler_def makeGroupHandler_def
  by (auto simp: list_all2_map1 list_all2_map2
      intro!: rhsOf_mono groupOf_mono list.rel_refl_strong makeTermHandler_mono assms)

lemma ruleHandler_Suc: "hle (ruleHandler E g n ru) (ruleHandler E g (Suc n) ru)"
proof (induction n arbitrary: ru)
  case 0
  show ?case by (rule hleI) simp
next
  case (Suc n)
  have "rel_sum (=) hle (makeRHSHandler E g (ruleHandler E g n) (RHS ru))
          (makeRHSHandler E g (ruleHandler E g (Suc n)) (RHS ru))"
    by (rule makeRHSHandler_mono) (rule Suc.IH)
  then show ?case
    by (cases "makeRHSHandler E g (ruleHandler E g n) (RHS ru)";
        cases "makeRHSHandler E g (ruleHandler E g (Suc n)) (RHS ru)")
      (auto simp: hle_refl)
qed

lemma hle_trans: "hle a b \<Longrightarrow> hle b c \<Longrightarrow> hle a c"
  by (simp add: hle_def)

lemma ruleHandler_mono: "n \<le> m \<Longrightarrow> hle (ruleHandler E g n ru) (ruleHandler E g m ru)"
proof (induction m)
  case 0
  then show ?case by (simp add: hle_refl)
next
  case (Suc m)
  show ?case
  proof (cases "n = Suc m")
    case True
    then show ?thesis by (simp add: hle_refl)
  next
    case False
    with Suc.prems have "n \<le> m" by simp
    from hle_trans [OF Suc.IH [OF this] ruleHandler_Suc] show ?thesis .
  qed
qed

lemma Parse_mono:
  assumes "n \<le> m" and "Parse E n g input = Some a"
  shows "Parse E m g input = Some a"
proof (cases "RuleNames g")
  case Nil
  with assms show ?thesis by (simp add: Parse_def)
next
  case (Cons topRule rest)
  show ?thesis
  proof (cases "Rules g topRule")
    case None
    with Cons assms show ?thesis by (simp add: Parse_def)
  next
    case (Some tr)
    with Cons assms(2) obtain x where
      x: "Result_apply (ruleHandler E g n tr) (Ident tr) (newResult g input) 0 = Some x"
      by (cases "Result_apply (ruleHandler E g n tr) (Ident tr) (newResult g input) 0")
        (auto simp: Parse_def)
    from hleD [OF apply_mono [OF ruleHandler_mono [OF assms(1)]] x]
    have "Result_apply (ruleHandler E g m tr) (Ident tr) (newResult g input) 0 = Some x" .
    with x Some Cons assms(2) show ?thesis by (simp add: Parse_def)
  qed
qed

text \<open>
  The depth bound of the model does not decide an outcome: two evaluations of \<open>Parse\<close>
  on the same grammar and input that return, under whatever bounds, give the same
  outcome, the same error or none and the same result with the same tree.
\<close>

theorem Parse_depth_independent:
  assumes "Parse E n g input = Some a" and "Parse E m g input = Some b"
  shows "a = b"
proof (cases "n \<le> m")
  case True
  from Parse_mono [OF True assms(1)] assms(2) show ?thesis by simp
next
  case False
  then have "m \<le> n" by simp
  from Parse_mono [OF this assms(2)] assms(1) show ?thesis by simp
qed

theorem Parse_depth_independent_witness:
  "\<exists>r. Parse E0 (Suc (Suc 0)) gLook ''x'' = Some (PRet (Some r) None) \<and>
        Parse E0 (Suc (Suc (Suc 0))) gLook ''x'' = Some (PRet (Some r) None) \<and>
        Tree r = Some lookTree"
proof -
  from gLook_parse obtain r where
    r: "Parse E0 (Suc (Suc 0)) gLook ''x'' = Some (PRet (Some r) None)"
    and t: "Tree r = Some lookTree"
    by blast
  have "Suc (Suc 0) \<le> Suc (Suc (Suc 0))" by simp
  from Parse_mono [OF this r] obtain b where
    b: "Parse E0 (Suc (Suc (Suc 0))) gLook ''x'' = Some b"
    by blast
  from Parse_depth_independent [OF r b] have "b = PRet (Some r) None" by simp
  with r b t show ?thesis by blast
qed

section \<open>Unused children in a strict construction\<close>

lemma GetString_frame:
  "GetString ca name = (res, ca') \<Longrightarrow>
     children ca' = children ca \<and> options ca' = options ca \<and> node ca' = node ca"
  by (auto simp: GetString_def Let_def split: option.splits gval.splits)

lemma accessor_String_frame:
  "accessor_String ca name = (res, ca') \<Longrightarrow>
     children ca' = children ca \<and> options ca' = options ca \<and> node ca' = node ca"
  by (auto simp: accessor_String_def split: prod.splits option.splits dest!: GetString_frame)

lemma GetTyped_frame:
  "GetTyped ca name ty = Some (res, ca') \<Longrightarrow>
     children ca' = children ca \<and> options ca' = options ca \<and> node ca' = node ca"
  by (auto simp: GetTyped_def Let_def split: option.splits if_splits)

lemma accessor_Get_frame:
  "accessor_Get ca name ty = Some (res, ca') \<Longrightarrow>
     children ca' = children ca \<and> options ca' = options ca \<and> node ca' = node ca"
  by (auto simp: accessor_Get_def split: prod.splits option.splits dest!: GetTyped_frame)

lemma accessor_Child_frame:
  "accessor_Child ca i = (res, ca') \<Longrightarrow>
     children ca' = children ca \<and> options ca' = options ca \<and> node ca' = node ca"
  by (auto simp: accessor_Child_def split: if_splits)

lemma runCallback_frame:
  "runCallback p ca = Some (res, ca') \<Longrightarrow>
     children ca' = children ca \<and> options ca' = options ca"
proof (induction p arbitrary: ca)
  case (CbGetString name k)
  then show ?case
    by (auto split: prod.splits dest!: GetString_frame) (metis range_eqI)+
next
  case (CbString name k)
  then show ?case
    by (auto split: prod.splits dest!: accessor_String_frame) (metis range_eqI)+
next
  case (CbGet name ty k)
  then show ?case
    by (auto split: prod.splits option.splits dest!: accessor_Get_frame) (metis range_eqI)+
next
  case (CbGetTyped name ty k)
  then show ?case
    by (auto split: prod.splits option.splits dest!: GetTyped_frame) (metis range_eqI)+
next
  case (CbChild i k)
  then show ?case
    by (auto split: prod.splits dest!: accessor_Child_frame) (metis range_eqI)+
next
  case (CbNode k)
  from CbNode.prems have "runCallback (k (node ca)) ca = Some (res, ca')" by simp
  from CbNode.IH [OF rangeI this] show ?case .
next
  case (CbGetChild label k)
  from CbGetChild.prems have "runCallback (k (GetChild ca label)) ca = Some (res, ca')" by simp
  from CbGetChild.IH [OF rangeI this] show ?case .
qed auto

lemma storeChild_keys:
  "storeChild m ch v = Inr m' \<Longrightarrow> fst ` set m' = insert (Label ch) (fst ` set m)"
proof -
  have upd: "\<And>x. fst ` set (AList.update (Label ch) x m) = insert (Label ch) (fst ` set m)"
    by (simp add: dom_update)
  assume "storeChild m ch v = Inr m'"
  then obtain x where "m' = AList.update (Label ch) x m"
    by (auto simp: storeChild_def split: option.splits if_splits)
  with upd show ?thesis by simp
qed

lemma constructChildren_keys_mono:
  "constructChildren cb opts chs m0 = CLOk m \<Longrightarrow> fst ` set m0 \<subseteq> fst ` set m"
proof (induction chs arbitrary: m0)
  case Nil
  then show ?case by simp
next
  case (Cons ch chs)
  show ?case
  proof (cases "Construct cb opts ch")
    case CPanic
    with Cons.prems show ?thesis by simp
  next
    case (CRet val err)
    show ?thesis
    proof (cases err)
      case (Some e)
      with CRet Cons.prems show ?thesis by (auto split: option.splits)
    next
      case None
      show ?thesis
      proof (cases val)
        case None
        with CRet \<open>err = None\<close> Cons.prems Cons.IH show ?thesis by simp
      next
        case (Some v)
        with CRet \<open>err = None\<close> Cons.prems obtain m' where
          st: "storeChild m0 ch v = Inr m'" and rest: "constructChildren cb opts chs m' = CLOk m"
          by (auto split: sum.splits)
        from Cons.IH [OF rest] storeChild_keys [OF st] show ?thesis by auto
      qed
    qed
  qed
qed

lemma constructChildren_key:
  "constructChildren cb opts chs m0 = CLOk m \<Longrightarrow> ch \<in> set chs \<Longrightarrow>
   Construct cb opts ch = CRet (Some v) None \<Longrightarrow> Label ch \<in> fst ` set m"
proof (induction chs arbitrary: m0)
  case Nil
  then show ?case by simp
next
  case (Cons c chs)
  show ?case
  proof (cases "Construct cb opts c")
    case CPanic
    with Cons.prems show ?thesis by simp
  next
    case (CRet val err)
    show ?thesis
    proof (cases err)
      case (Some e)
      with CRet Cons.prems show ?thesis by (auto split: option.splits)
    next
      case None
      show ?thesis
      proof (cases val)
        case None
        with CRet \<open>err = None\<close> Cons.prems Cons.IH show ?thesis by auto
      next
        case (Some v')
        with CRet \<open>err = None\<close> Cons.prems obtain m' where
          st: "storeChild m0 c v' = Inr m'" and rest: "constructChildren cb opts chs m' = CLOk m"
          by (auto split: sum.splits)
        show ?thesis
        proof (cases "ch = c")
          case True
          with storeChild_keys [OF st] constructChildren_keys_mono [OF rest] show ?thesis by auto
        next
          case False
          with Cons.prems have "ch \<in> set chs" by simp
          from Cons.IH [OF rest this Cons.prems(3)] show ?thesis .
        qed
      qed
    qed
  qed
qed

lemma constructChildren_failed_child:
  "ch \<in> set chs \<Longrightarrow> failed (Construct cb opts ch) \<Longrightarrow>
   constructChildren cb opts chs m0 \<noteq> CLOk m"
proof (induction chs arbitrary: m0)
  case Nil
  then show ?case by simp
next
  case (Cons c chs)
  show ?case
  proof (cases "ch = c")
    case True
    with Cons.prems show ?thesis
      by (auto simp: failed_def split: cres.splits option.splits)
  next
    case False
    with Cons.prems have "ch \<in> set chs" by simp
    from Cons.IH [OF this Cons.prems(2)] show ?thesis
      by (auto split: cres.splits option.splits sum.splits)
  qed
qed

lemma Check_unused:
  "options ca = Some opts \<Longrightarrow> ErrorOnUnusedChild opts \<Longrightarrow> k \<in> fst ` set (children ca) \<Longrightarrow>
   k \<notin> set (accessed ca) \<Longrightarrow> Check ca \<noteq> None"
  by (auto simp: Check_def Let_def filter_empty_conv)

lemma Construct_failed_child:
  assumes "ch \<in> set (Children n)" and "failed (Construct cb opts ch)"
  shows "failed (Construct cb opts n)"
proof (cases n)
  case (Node l t c p len row col chs e a ta)
  with assms have "ch \<in> set chs" by simp
  from constructChildren_failed_child [OF this assms(2)]
  have "\<And>m. constructChildren cb opts chs [] \<noteq> CLOk m" .
  with Node show ?thesis
    by (auto simp: failed_def split: clres.splits)
qed

lemma Construct_unused_here:
  assumes strict: "ErrorOnUnusedChild opts"
    and ch: "ch \<in> set (Children m)"
    and val: "Construct cb (Some opts) ch = CRet (Some v) None"
    and unused: "\<And>ca. afterCallback cb (Some opts) m = Some ca \<Longrightarrow> Label ch \<notin> set (accessed ca)"
  shows "failed (Construct cb (Some opts) m)"
proof (cases m)
  case (Node l t c p len row col chs e a ta)
  show ?thesis
  proof (cases "constructChildren cb (Some opts) chs []")
    case CLPanic
    with Node show ?thesis by (simp add: failed_def)
  next
    case (CLErr err)
    with Node show ?thesis by (simp add: failed_def)
  next
    case (CLOk cm)
    let ?ca = "\<lparr>node = m, children = cm, accessed = [], errs = [], options = Some opts\<rparr>"
    have acc: "accessorFor cb (Some opts) m = Some ?ca"
      using CLOk Node by (simp add: accessorFor_def)
    from ch Node have "ch \<in> set chs" by simp
    from constructChildren_key [OF CLOk this val] have key: "Label ch \<in> fst ` set cm" .
    show ?thesis
    proof (cases "runCallback (cb l) ?ca")
      case None
      with Node CLOk show ?thesis by (simp add: failed_def)
    next
      case (Some out)
      obtain val' err' ca' where out: "out = ((val', err'), ca')" by (metis prod.exhaust)
      from Some out acc Node have "afterCallback cb (Some opts) m = Some ca'"
        by (simp add: afterCallback_def)
      from unused [OF this] have nacc: "Label ch \<notin> set (accessed ca')" .
      from runCallback_frame Some out have "children ca' = cm" "options ca' = Some opts"
        by fastforce+
      with Check_unused [OF _ strict _ nacc] key have "Check ca' \<noteq> None" by simp
      with Node CLOk Some out show ?thesis
        by (auto simp: failed_def split: option.splits)
    qed
  qed
qed

text \<open>
  C8 as stated fails on the tree \<open>(Top (_) (A "a"))\<close> with \<open>ErrorOnUnusedChild\<close> set:
  the callback returns nil for the child \<open>_\<close> and never asks the accessor for \<open>_\<close>,
  and the construction succeeds. A child whose value is nil is not stored in
  \<open>children\<close>, so \<open>Check\<close> does not see it.
\<close>

theorem Construct_nil_child_counterexample:
  "ErrorOnUnusedChild strictOptions \<and>
   map Label (Children topTree) = [''_'', ''A''] \<and>
   (\<exists>ca. afterCallback readingCallback (Some strictOptions) topTree = Some ca \<and>
         accessed ca = [''A'']) \<and>
   Construct readingCallback (Some strictOptions) topTree = CRet (Some (VNamed ''Top'' 0)) None"
  by (simp add: strictOptions_def topTree_def leafA_def readingCallback_def afterCallback_def
      accessorFor_def storeChild_def accessor_String_def GetString_def Check_def Let_def)

text \<open>
  C8, amended. With \<open>ErrorOnUnusedChild\<close> set, the construction of a tree fails (it
  returns an error or panics) whenever the tree has a node \<open>m\<close> with a child whose
  construction returns a value other than nil and whose label is not among the names
  the callback of \<open>m\<close> asked the accessor for (through \<open>String\<close>, \<open>GetString\<close>,
  \<open>Get\<close> or \<open>GetTyped\<close>).
\<close>

theorem Construct_unused_child_fails:
  assumes "ErrorOnUnusedChild opts"
    and "m \<in> set (subnodes n)"
    and "ch \<in> set (Children m)"
    and "Construct cb (Some opts) ch = CRet (Some v) None"
    and "\<forall>ca. afterCallback cb (Some opts) m = Some ca \<longrightarrow> Label ch \<notin> set (accessed ca)"
  shows "failed (Construct cb (Some opts) n)"
  using assms(2)
proof (induction n)
  case (Node l t c p len row col chs e a ta)
  show ?case
  proof (cases "m = Node l t c p len row col chs e a ta")
    case True
    with Construct_unused_here [OF assms(1) assms(3) assms(4)] assms(5) show ?thesis by blast
  next
    case False
    with Node.prems obtain c' where c': "c' \<in> set chs" "m \<in> set (subnodes c')" by auto
    from Node.IH(1) [OF c'] have "failed (Construct cb (Some opts) c')" .
    with Construct_failed_child [of c' "Node l t c p len row col chs e a ta" cb "Some opts"] c'(1)
    show ?thesis by simp
  qed
qed

theorem Construct_unused_child_fails_witness:
  "ErrorOnUnusedChild strictOptions \<and> topTree \<in> set (subnodes rootTree) \<and>
   leafA \<in> set (Children topTree) \<and>
   Construct idleCallback (Some strictOptions) leafA = CRet (Some (VString ''a'')) None \<and>
   (\<exists>ca. afterCallback idleCallback (Some strictOptions) topTree = Some ca \<and>
         Label leafA \<notin> set (accessed ca)) \<and>
   failed (Construct idleCallback (Some strictOptions) rootTree)"
proof -
  have a: "ErrorOnUnusedChild strictOptions" by (simp add: strictOptions_def)
  have b: "topTree \<in> set (subnodes rootTree)" by (simp add: rootTree_def topTree_def)
  have c: "leafA \<in> set (Children topTree)" by (simp add: topTree_def)
  have d: "Construct idleCallback (Some strictOptions) leafA = CRet (Some (VString ''a'')) None"
    by (simp add: leafA_def idleCallback_def Check_def strictOptions_def)
  have e: "afterCallback idleCallback (Some strictOptions) topTree
             = Some \<lparr>node = topTree, children = [(''A'', VString ''a'')], accessed = [],
                     errs = [], options = Some strictOptions\<rparr>"
    by (simp add: afterCallback_def accessorFor_def topTree_def leafA_def idleCallback_def
        Check_def strictOptions_def storeChild_def)
  then have f: "\<forall>ca. afterCallback idleCallback (Some strictOptions) topTree = Some ca
                  \<longrightarrow> Label leafA \<notin> set (accessed ca)"
    by simp
  from Construct_unused_child_fails [OF a b c d f]
  have "failed (Construct idleCallback (Some strictOptions) rootTree)" .
  with a b c d e show ?thesis by simp
qed

section \<open>Matchers stay within the input\<close>

lemma soundI:
  "(\<And>r pos w e r'. wfState r \<Longrightarrow> 0 \<le> pos \<Longrightarrow> pos \<le> srclen r \<Longrightarrow>
      h r pos = Some (Ret w e r') \<Longrightarrow>
      wfState r' \<and> sameFrame r r' \<and> 0 \<le> w \<and> pos + w \<le> srclen r)
   \<Longrightarrow> sound h"
  unfolding sound_def by blast

lemma soundD:
  "sound h \<Longrightarrow> wfState r \<Longrightarrow> 0 \<le> pos \<Longrightarrow> pos \<le> srclen r \<Longrightarrow> h r pos = Some (Ret w e r') \<Longrightarrow>
     wfState r' \<and> sameFrame r r' \<and> 0 \<le> w \<and> pos + w \<le> srclen r"
  unfolding sound_def by blast

lemma bounded_sel:
  "bounded L n =
     (0 \<le> Pos n \<and> 0 \<le> Len n \<and> Pos n + Len n \<le> L \<and> list_all (bounded L) (Children n))"
  by (cases n) simp

lemma sameFrame_refl: "sameFrame r r"
  by (simp add: sameFrame_def)

lemma sameFrame_trans: "sameFrame a b \<Longrightarrow> sameFrame b c \<Longrightarrow> sameFrame a c"
  by (simp add: sameFrame_def)

lemma sameFrame_srclen: "sameFrame r r' \<Longrightarrow> srclen r' = srclen r"
  by (simp add: sameFrame_def srclen_def)

lemma bounded_setChildren:
  "bounded L n \<Longrightarrow> list_all (bounded L) cs \<Longrightarrow> bounded L (setChildren n cs)"
  by (cases n) (simp add: setChildren_def)

lemma bounded_setText: "bounded L n \<Longrightarrow> bounded L (setText n t)"
  by (cases n) (simp add: setText_def)

lemma bounded_setLenErr:
  "bounded L n \<Longrightarrow> 0 \<le> w \<Longrightarrow> Pos n + w \<le> L \<Longrightarrow> bounded L (setLenErr n w e)"
  by (cases n) (simp add: setLenErr_def)

lemma bounded_newNode: "0 \<le> p \<Longrightarrow> p \<le> L \<Longrightarrow> bounded L (newNode l p)"
  by (simp add: newNode_def)

lemma wfState_top:
  "wfState r \<Longrightarrow> \<exists>tn ns. nodeStack r = tn # ns \<and> TopNode r = Some tn \<and>
      bounded (srclen r) tn \<and> list_all (bounded (srclen r)) (Children tn)"
  by (cases "nodeStack r") (auto simp: wfState_def TopNode_def bounded_sel)

lemma setTopChildren_wf:
  assumes "wfState r" and "list_all (bounded (srclen r)) save"
  shows "\<exists>r'. setTopChildren r save = Some r' \<and> wfState r' \<and> sameFrame r r'"
proof -
  from wfState_top [OF assms(1)] obtain tn ns where ns: "nodeStack r = tn # ns"
    and b: "bounded (srclen r) tn" by blast
  from bounded_setChildren [OF b assms(2)] assms(1) ns show ?thesis
    by (cases tn) (auto simp: setTopChildren_def wfState_def sameFrame_def srclen_def setChildren_def)
qed

lemma Attach_wf:
  assumes "wfState r" and "bounded (srclen r) n"
  shows "\<exists>r'. Attach r n = Some r' \<and> wfState r' \<and> sameFrame r r' \<and> memo r' = memo r"
proof -
  from wfState_top [OF assms(1)] obtain tn ns where ns: "nodeStack r = tn # ns"
    and b: "bounded (srclen r) tn" and cs: "list_all (bounded (srclen r)) (Children tn)" by blast
  from cs assms(2) have "list_all (bounded (srclen r)) (Children tn @ [n])" by simp
  from bounded_setChildren [OF b this] assms(1) ns show ?thesis
    by (cases tn)
      (auto simp: Attach_def wfState_def sameFrame_def srclen_def setChildren_def sameFrame_refl)
qed

lemma literal_sound: "sound (makeLiteralHandler l)"
  by (rule soundI)
    (auto simp: makeLiteralHandler_def slice_def srclen_def sameFrame_refl
      split: if_splits option.splits)

lemma decode_width:
  "DecodeRuneInString s = (c, w) \<Longrightarrow> 0 \<le> w \<and> w \<le> int (length s)"
  by (cases s) (auto simp: DecodeRuneInString_def Let_def Suc_le_eq split: if_splits)

lemma charclass_sound: "sound (makeCharClassHandler E cc)"
proof (rule soundI)
  fix r pos w e r'
  assume wf: "wfState r" and p: "0 \<le> pos" "pos \<le> srclen r"
    and run: "makeCharClassHandler E cc r pos = Some (Ret w e r')"
  from p obtain rest where rest: "slice (Source r) pos (int (length (Source r))) = Some rest"
    and len: "int (length rest) = srclen r - pos"
    by (auto simp: slice_def srclen_def)
  obtain c w0 where d: "DecodeRuneInString rest = (c, w0)" by (cases "DecodeRuneInString rest")
  from decode_width [OF d] len have "0 \<le> w0" "pos + w0 \<le> srclen r" by auto
  with run rest d wf p show "wfState r' \<and> sameFrame r r' \<and> 0 \<le> w \<and> pos + w \<le> srclen r"
    by (auto simp: makeCharClassHandler_def Let_def sameFrame_refl split: if_splits)
qed

lemma groupLoop_sound:
  assumes "list_all sound hs"
  shows "wfState r \<Longrightarrow> 0 \<le> pos \<Longrightarrow> 0 \<le> ww \<Longrightarrow> pos + ww \<le> srclen r \<Longrightarrow>
         groupLoop hs pos ww r = Some (Ret w e r') \<Longrightarrow>
         wfState r' \<and> sameFrame r r' \<and> 0 \<le> w \<and> pos + w \<le> srclen r"
  using assms
proof (induction hs arbitrary: ww r)
  case Nil
  then show ?case by (auto simp: sameFrame_refl)
next
  case (Cons h hs)
  from Cons.prems have sh: "sound h" and shs: "list_all sound hs" by auto
  from Cons.prems(5) obtain w1 e1 r1 where y: "h r (pos + ww) = Some (Ret w1 e1 r1)"
    by (auto split: option.splits hres.splits)
  from soundD [OF sh Cons.prems(1) _ Cons.prems(4) y] Cons.prems have
    r1: "wfState r1" "sameFrame r r1" "0 \<le> w1" "pos + ww + w1 \<le> srclen r"
    by auto
  show ?case
  proof (cases e1)
    case (Some err)
    with r1 y Cons.prems show ?thesis by auto
  next
    case None
    with y Cons.prems have "groupLoop hs pos (ww + w1) r1 = Some (Ret w e r')" by simp
    from Cons.IH [OF r1(1) Cons.prems(2) _ _ this shs] r1 Cons.prems sameFrame_srclen [OF r1(2)]
    have "wfState r'" "sameFrame r1 r'" "0 \<le> w" "pos + w \<le> srclen r"
      by (auto simp: add.assoc)
    with r1(2) show ?thesis by (auto intro: sameFrame_trans)
  qed
qed

lemma groupHandler_sound: "list_all sound hs \<Longrightarrow> sound (groupHandler hs)"
  by (rule soundI) (auto simp: groupHandler_def dest: groupLoop_sound)

lemma choiceLoop_sound:
  assumes "list_all (\<lambda>kh. sound (snd kh)) hs"
  shows "wfState r \<Longrightarrow> 0 \<le> pos \<Longrightarrow> pos \<le> srclen r \<Longrightarrow> 0 \<le> w0 \<Longrightarrow> pos + w0 \<le> srclen r \<Longrightarrow>
         list_all (bounded (srclen r)) save \<Longrightarrow>
         choiceLoop rhs hs save pos errMap w0 r = Some (Ret w e r') \<Longrightarrow>
         wfState r' \<and> sameFrame r r' \<and> 0 \<le> w \<and> pos + w \<le> srclen r"
  using assms
proof (induction hs arbitrary: errMap w0 r)
  case Nil
  then show ?case by (auto simp: sameFrame_refl)
next
  case (Cons kh hs)
  obtain k h where kh: "kh = (k, h)" by (cases kh)
  with Cons.prems have sh: "sound h" and shs: "list_all (\<lambda>kh. sound (snd kh)) hs" by auto
  from setTopChildren_wf [OF Cons.prems(1) Cons.prems(6)] obtain r1 where
    r1: "setTopChildren r save = Some r1" "wfState r1" "sameFrame r r1" by blast
  note len1 = sameFrame_srclen [OF r1(3)]
  from Cons.prems(7) kh r1 obtain w1 e1 r2 where y: "h r1 pos = Some (Ret w1 e1 r2)"
    by (auto split: option.splits hres.splits)
  from soundD [OF sh r1(2) Cons.prems(2) _ y] Cons.prems(3) len1 have
    r2: "wfState r2" "sameFrame r1 r2" "0 \<le> w1" "pos + w1 \<le> srclen r"
    by auto
  note len2 = sameFrame_srclen [OF r2(2)]
  show ?case
  proof (cases e1)
    case None
    with r2 r1 y kh Cons.prems(7) show ?thesis by (auto intro: sameFrame_trans)
  next
    case (Some err)
    with r1 y kh Cons.prems(7)
    have "choiceLoop rhs hs save pos (AList.update k err errMap) w1 r2 = Some (Ret w e r')"
      by simp
    from Cons.IH [OF r2(1) Cons.prems(2) _ r2(3) _ _ this shs] Cons.prems(3,6) r2(4) len1 len2
    have "wfState r'" "sameFrame r2 r'" "0 \<le> w" "pos + w \<le> srclen r"
      by auto
    with r1(3) r2(2) show ?thesis by (auto intro: sameFrame_trans)
  qed
qed

lemma choiceHandler_sound:
  assumes "list_all (\<lambda>kh. sound (snd kh)) khs"
  shows "sound (choiceHandler rhs khs)"
proof (rule soundI)
  fix r pos w e r'
  assume wf: "wfState r" and p: "0 \<le> pos" "pos \<le> srclen r"
    and run: "choiceHandler rhs khs r pos = Some (Ret w e r')"
  from wfState_top [OF wf] obtain tn where tn: "TopNode r = Some tn"
    and save: "list_all (bounded (srclen r)) (Children tn)" by blast
  from run tn obtain k h rest where khs: "khs = (k, h) # rest"
    by (cases khs) (auto simp: choiceHandler_def)
  with assms have sh: "sound h" and srest: "list_all (\<lambda>kh. sound (snd kh)) rest" by auto
  from run tn khs obtain w1 e1 r1 where y: "h r pos = Some (Ret w1 e1 r1)"
    by (auto simp: choiceHandler_def split: option.splits hres.splits)
  from soundD [OF sh wf p y] have
    r1: "wfState r1" "sameFrame r r1" "0 \<le> w1" "pos + w1 \<le> srclen r"
    by auto
  note len1 = sameFrame_srclen [OF r1(2)]
  show "wfState r' \<and> sameFrame r r' \<and> 0 \<le> w \<and> pos + w \<le> srclen r"
  proof (cases e1)
    case None
    with r1 y run tn khs show ?thesis by (auto simp: choiceHandler_def)
  next
    case (Some err)
    with y run tn khs
    have "choiceLoop rhs rest (Children tn) pos [(k, err)] w1 r1 = Some (Ret w e r')"
      by (simp add: choiceHandler_def)
    from choiceLoop_sound [OF srest r1(1) p(1) _ r1(3) _ _ this] p(2) r1(4) save len1
    have "wfState r'" "sameFrame r1 r'" "0 \<le> w" "pos + w \<le> srclen r"
      by auto
    with r1(2) show ?thesis by (auto intro: sameFrame_trans)
  qed
qed

lemma question_sound:
  assumes "sound h"
  shows "sound (makeQuestionHandler h)"
proof (rule soundI)
  fix r pos w e r'
  assume wf: "wfState r" and p: "0 \<le> pos" "pos \<le> srclen r"
    and run: "makeQuestionHandler h r pos = Some (Ret w e r')"
  then obtain w1 e1 r1 where y: "h r pos = Some (Ret w1 e1 r1)"
    by (auto simp: makeQuestionHandler_def split: option.splits hres.splits)
  from soundD [OF assms wf p y] run y p
  show "wfState r' \<and> sameFrame r r' \<and> 0 \<le> w \<and> pos + w \<le> srclen r"
    by (auto simp: makeQuestionHandler_def split: option.splits)
qed

lemma predicate_sound:
  assumes "sound h"
  shows "sound (makePredicateHandler h positive)"
proof (rule soundI)
  fix r pos w e r'
  assume wf: "wfState r" and p: "0 \<le> pos" "pos \<le> srclen r"
    and run: "makePredicateHandler h positive r pos = Some (Ret w e r')"
  then obtain w1 e1 r1 where y: "h r pos = Some (Ret w1 e1 r1)"
    by (auto simp: makePredicateHandler_def split: option.splits hres.splits)
  from soundD [OF assms wf p y] run y p
  show "wfState r' \<and> sameFrame r r' \<and> 0 \<le> w \<and> pos + w \<le> srclen r"
    by (auto simp: makePredicateHandler_def split: if_splits)
qed

lemma capture_sound:
  assumes "sound h"
  shows "sound (makeCaptureHandler h)"
proof (rule soundI)
  fix r pos w e r'
  assume wf: "wfState r" and p: "0 \<le> pos" "pos \<le> srclen r"
    and run: "makeCaptureHandler h r pos = Some (Ret w e r')"
  then obtain w1 e1 r1 where y: "h r pos = Some (Ret w1 e1 r1)"
    by (auto simp: makeCaptureHandler_def split: option.splits hres.splits)
  from soundD [OF assms wf p y] have
    r1: "wfState r1" "sameFrame r r1" "0 \<le> w1" "pos + w1 \<le> srclen r" by auto
  show "wfState r' \<and> sameFrame r r' \<and> 0 \<le> w \<and> pos + w \<le> srclen r"
  proof (cases e1)
    case (Some err)
    with run y r1 show ?thesis by (auto simp: makeCaptureHandler_def)
  next
    case None
    from wfState_top [OF r1(1)] obtain tn ns where ns: "nodeStack r1 = tn # ns"
      and b: "bounded (srclen r1) tn" by blast
    from None run y ns obtain t where
      out: "w = w1" "r' = r1\<lparr>nodeStack := setText tn t # ns\<rparr>"
      by (auto simp: makeCaptureHandler_def split: option.splits)
    from bounded_setText [OF b] r1(1) ns have "wfState (r1\<lparr>nodeStack := setText tn t # ns\<rparr>)"
      by (auto simp: wfState_def srclen_def)
    moreover from ns have "sameFrame r1 (r1\<lparr>nodeStack := setText tn t # ns\<rparr>)"
      by (cases tn) (auto simp: sameFrame_def setText_def)
    ultimately show ?thesis using out r1 by (auto intro: sameFrame_trans)
  qed
qed


lemma repeatLoop_sound_all:
  assumes run: "repeatLoop h pos ww save r = Some y"
  shows "sound h \<longrightarrow> wfState r \<longrightarrow> 0 \<le> pos \<longrightarrow> 0 \<le> ww \<longrightarrow> pos + ww \<le> srclen r \<longrightarrow>
         list_all (bounded (srclen r)) save \<longrightarrow>
         (\<forall>w e r'. y = Ret w e r' \<longrightarrow>
            wfState r' \<and> sameFrame r r' \<and> 0 \<le> w \<and> pos + w \<le> srclen r)"
proof (rule repeatLoop.raw_induct
    [where P = "\<lambda>h pos ww save r y.
       sound h \<longrightarrow> wfState r \<longrightarrow> 0 \<le> pos \<longrightarrow> 0 \<le> ww \<longrightarrow> pos + ww \<le> srclen r \<longrightarrow>
       list_all (bounded (srclen r)) save \<longrightarrow>
       (\<forall>w e r'. y = Ret w e r' \<longrightarrow>
          wfState r' \<and> sameFrame r r' \<and> 0 \<le> w \<and> pos + w \<le> srclen r)",
      OF _ run])
  fix rl :: "handler \<Rightarrow> int \<Rightarrow> int \<Rightarrow> Node list \<Rightarrow> Result \<Rightarrow> hres option"
    and h pos ww save r y
  assume IH: "\<And>h pos ww save r y. rl h pos ww save r = Some y \<Longrightarrow>
       sound h \<longrightarrow> wfState r \<longrightarrow> 0 \<le> pos \<longrightarrow> 0 \<le> ww \<longrightarrow> pos + ww \<le> srclen r \<longrightarrow>
       list_all (bounded (srclen r)) save \<longrightarrow>
       (\<forall>w e r'. y = Ret w e r' \<longrightarrow>
          wfState r' \<and> sameFrame r r' \<and> 0 \<le> w \<and> pos + w \<le> srclen r)"
    and step: "(case h r (pos + ww) of
                  None \<Rightarrow> None
                | Some Exit \<Rightarrow> Some Exit
                | Some (Ret w err r1) \<Rightarrow>
                    if err = None \<and> 0 < w
                    then (case TopNode r1 of
                            None \<Rightarrow> Some Exit
                          | Some tn \<Rightarrow> rl h pos (ww + w) (Children tn) r1)
                    else (case setTopChildren r1 save of
                            None \<Rightarrow> Some Exit
                          | Some r2 \<Rightarrow> Some (Ret ww err r2))) = Some y"
  show "sound h \<longrightarrow> wfState r \<longrightarrow> 0 \<le> pos \<longrightarrow> 0 \<le> ww \<longrightarrow> pos + ww \<le> srclen r \<longrightarrow>
       list_all (bounded (srclen r)) save \<longrightarrow>
       (\<forall>w e r'. y = Ret w e r' \<longrightarrow>
          wfState r' \<and> sameFrame r r' \<and> 0 \<le> w \<and> pos + w \<le> srclen r)"
  proof (intro impI allI)
    fix w e r'
    assume sh: "sound h" and wf: "wfState r" and p: "0 \<le> pos" "0 \<le> ww" "pos + ww \<le> srclen r"
      and save: "list_all (bounded (srclen r)) save" and y: "y = Ret w e r'"
    from step y obtain w1 e1 r1 where run1: "h r (pos + ww) = Some (Ret w1 e1 r1)"
      by (auto split: option.splits hres.splits)
    from soundD [OF sh wf _ p(3) run1] p have
      r1: "wfState r1" "sameFrame r r1" "0 \<le> w1" "pos + ww + w1 \<le> srclen r"
      by auto
    note len1 = sameFrame_srclen [OF r1(2)]
    show "wfState r' \<and> sameFrame r r' \<and> 0 \<le> w \<and> pos + w \<le> srclen r"
    proof (cases "e1 = None \<and> 0 < w1")
      case True
      from wfState_top [OF r1(1)] obtain tn where tn: "TopNode r1 = Some tn"
        and cs: "list_all (bounded (srclen r1)) (Children tn)" by blast
      from True run1 tn step y have "rl h pos (ww + w1) (Children tn) r1 = Some (Ret w e r')"
        by simp
      from IH [OF this] sh r1 p cs len1
      have "wfState r'" "sameFrame r1 r'" "0 \<le> w" "pos + w \<le> srclen r"
        by (auto simp: add.assoc)
      with r1(2) show ?thesis by (auto intro: sameFrame_trans)
    next
      case False
      from save len1 have "list_all (bounded (srclen r1)) save" by simp
      from setTopChildren_wf [OF r1(1) this] obtain r2 where
        r2: "setTopChildren r1 save = Some r2" "wfState r2" "sameFrame r1 r2" by blast
      with False run1 step y have "w = ww" "r' = r2" by auto
      with r2 r1 p show ?thesis by (auto intro: sameFrame_trans)
    qed
  qed
qed

lemma repeatLoop_sound:
  "repeatLoop h pos ww save r = Some (Ret w e r') \<Longrightarrow> sound h \<Longrightarrow> wfState r \<Longrightarrow> 0 \<le> pos \<Longrightarrow>
   0 \<le> ww \<Longrightarrow> pos + ww \<le> srclen r \<Longrightarrow> list_all (bounded (srclen r)) save \<Longrightarrow>
   wfState r' \<and> sameFrame r r' \<and> 0 \<le> w \<and> pos + w \<le> srclen r"
  using repeatLoop_sound_all by blast

lemma wfState_fyi: "wfState r \<Longrightarrow> wfState (r\<lparr>fyiError := e\<rparr>)"
  by (simp add: wfState_def srclen_def)

lemma sameFrame_fyi: "sameFrame r r' \<Longrightarrow> sameFrame r (r'\<lparr>fyiError := e\<rparr>)"
  by (simp add: sameFrame_def)

lemma star_sound:
  assumes "sound h"
  shows "sound (makeStarHandler h)"
proof (rule soundI)
  fix r pos w e r'
  assume wf: "wfState r" and p: "0 \<le> pos" "pos \<le> srclen r"
    and run: "makeStarHandler h r pos = Some (Ret w e r')"
  from wfState_top [OF wf] obtain tn where tn: "TopNode r = Some tn"
    and cs: "list_all (bounded (srclen r)) (Children tn)" by blast
  from run tn obtain e2 r2 where loop: "repeatLoop h pos 0 (Children tn) r = Some (Ret w e2 r2)"
    and out: "r' = (if w = 0 \<and> e2 \<noteq> None then r2\<lparr>fyiError := e2\<rparr> else r2)"
    by (auto simp: makeStarHandler_def split: option.splits hres.splits)
  from repeatLoop_sound [OF loop assms wf p(1) _ _ cs] p
  have "wfState r2" "sameFrame r r2" "0 \<le> w" "pos + w \<le> srclen r" by auto
  with out show "wfState r' \<and> sameFrame r r' \<and> 0 \<le> w \<and> pos + w \<le> srclen r"
    by (auto intro: wfState_fyi sameFrame_fyi)
qed

lemma plus_sound:
  assumes "sound h"
  shows "sound (makePlusHandler h)"
proof (rule soundI)
  fix r pos w e r'
  assume wf: "wfState r" and p: "0 \<le> pos" "pos \<le> srclen r"
    and run: "makePlusHandler h r pos = Some (Ret w e r')"
  then obtain w1 e1 r1 where y: "h r pos = Some (Ret w1 e1 r1)"
    by (auto simp: makePlusHandler_def split: option.splits hres.splits)
  from soundD [OF assms wf p y] have
    r1: "wfState r1" "sameFrame r r1" "0 \<le> w1" "pos + w1 \<le> srclen r" by auto
  note len1 = sameFrame_srclen [OF r1(2)]
  show "wfState r' \<and> sameFrame r r' \<and> 0 \<le> w \<and> pos + w \<le> srclen r"
  proof (cases e1)
    case (Some err)
    with run y r1 show ?thesis by (auto simp: makePlusHandler_def)
  next
    case None
    from wfState_top [OF r1(1)] obtain tn where tn: "TopNode r1 = Some tn"
      and cs: "list_all (bounded (srclen r1)) (Children tn)" by blast
    from None run y tn obtain e2 where
      loop: "repeatLoop h pos w1 (Children tn) r1 = Some (Ret w e2 r')"
      by (auto simp: makePlusHandler_def split: option.splits hres.splits)
    from repeatLoop_sound [OF loop assms r1(1) p(1) r1(3) _ cs] r1(4) len1
    have "wfState r'" "sameFrame r1 r'" "0 \<le> w" "pos + w \<le> srclen r" by auto
    with r1(2) show ?thesis by (auto intro: sameFrame_trans)
  qed
qed

lemma apply_sound:
  assumes "sound h"
  shows "sound (Result_apply h ident)"
proof (rule soundI)
  fix r pos w e r'
  assume wf: "wfState r" and p: "0 \<le> pos" "pos \<le> srclen r"
    and run: "Result_apply h ident r pos = Some (Ret w e r')"
  show "wfState r' \<and> sameFrame r r' \<and> 0 \<le> w \<and> pos + w \<le> srclen r"
  proof (cases "memo r (pos, ident)")
    case (Some n)
    with wf have b: "bounded (srclen r) n" and pn: "Pos n = pos" by (auto simp: wfState_def)
    then have bw: "0 \<le> Len n" "pos + Len n \<le> srclen r" by (auto simp: bounded_sel)
    show ?thesis
    proof (cases "Err n")
      case (Some err)
      with \<open>memo r (pos, ident) = Some n\<close> run wf bw show ?thesis
        by (auto simp: Result_apply_def sameFrame_refl)
    next
      case None
      from Attach_wf [OF wf b] obtain r1 where "Attach r n = Some r1" "wfState r1" "sameFrame r r1"
        by blast
      with None \<open>memo r (pos, ident) = Some n\<close> run bw show ?thesis
        by (auto simp: Result_apply_def)
    qed
  next
    case None
    let ?r1 = "r\<lparr>nodeStack := newNode ident pos # nodeStack r\<rparr>"
    from wf p have wf1: "wfState ?r1"
      by (auto simp: wfState_def srclen_def newNode_def)
    have len1: "srclen ?r1 = srclen r" by (simp add: srclen_def)
    from None run obtain w1 e1 r2 where y: "h ?r1 pos = Some (Ret w1 e1 r2)"
      by (auto simp: Result_apply_def split: option.splits hres.splits)
    from soundD [OF assms wf1 p(1) _ y] p(2) len1 have
      r2: "wfState r2" "sameFrame ?r1 r2" "0 \<le> w1" "pos + w1 \<le> srclen r" by auto
    from sameFrame_srclen [OF r2(2)] len1 have len2: "srclen r2 = srclen r" by simp
    from wfState_top [OF r2(1)] obtain n ns where ns: "nodeStack r2 = n # ns"
      and bn: "bounded (srclen r2) n" by blast
    from r2(2) ns have tl: "ns = nodeStack r" and posn: "Pos n = pos" and labn: "Label n = ident"
      by (auto simp: sameFrame_def newNode_def)
    let ?n' = "setLenErr n w1 e1"
    let ?r3 = "r2\<lparr>nodeStack := ns, memo := (memo r2)((pos, ident) \<mapsto> ?n')\<rparr>"
    from bounded_setLenErr [OF bn r2(3)] posn r2(4) len2 have bn': "bounded (srclen r2) ?n'"
      by simp
    have posn': "Pos ?n' = pos" "Label ?n' = ident"
      using posn labn by (cases n; simp add: setLenErr_def)+
    from r2(1) ns tl wf bn' posn' len2 have wf3: "wfState ?r3"
      by (auto simp: wfState_def srclen_def)
    have len3: "srclen ?r3 = srclen r2" by (simp add: srclen_def)
    from Attach_wf [OF wf3] bn' len3 obtain r4 where
      r4: "Attach ?r3 ?n' = Some r4" "wfState r4" "sameFrame ?r3 r4" by auto
    from None run y ns r4 have out: "w = w1" "r' = r4"
      by (auto simp: Result_apply_def Let_def)
    from r2(2) tl have "sameFrame r ?r3" by (simp add: sameFrame_def)
    with r4 out r2 show ?thesis by (auto intro: sameFrame_trans)
  qed
qed


lemma collect_sound:
  "list_all csound cs \<Longrightarrow> collect cs = Inr hs \<Longrightarrow> list_all sound hs"
proof (induction cs arbitrary: hs)
  case Nil
  then show ?case by simp
next
  case (Cons c cs)
  then show ?case
    by (cases c; cases "collect cs") (auto simp: csound_def)
qed

lemma groupOf_sound:
  assumes "list_all csound cs"
  shows "csound (groupOf cs)"
proof -
  have other: "csound (case collect cs of Inl e \<Rightarrow> Inl e | Inr hh \<Rightarrow> Inr (groupHandler hh))"
    using collect_sound [OF assms]
    by (cases "collect cs") (auto simp: csound_def intro: groupHandler_sound)
  from assms other show ?thesis
    by (cases cs; cases "tl cs") (auto simp: groupOf_def)
qed

lemma zip_sound: "list_all sound hs \<Longrightarrow> list_all (\<lambda>kh. sound (snd kh)) (zip ks hs)"
  by (induction ks hs rule: list_induct2') auto

lemma rhsOf_sound:
  assumes "list_all csound cs"
  shows "csound (rhsOf E choices cs)"
proof -
  have other: "csound (case collect cs of Inl e \<Rightarrow> Inl e
       | Inr hh \<Rightarrow> Inr (choiceHandler choices (zip (map (groupToString E) choices) hh)))"
    using collect_sound [OF assms]
    by (cases "collect cs") (auto simp: csound_def intro: choiceHandler_sound zip_sound)
  from assms other show ?thesis
    by (cases cs; cases "tl cs") (auto simp: rhsOf_def)
qed

lemma makeSpecialHandler_sound: "sound h \<Longrightarrow> csound (makeSpecialHandler h c)"
  by (auto simp: makeSpecialHandler_def csound_def intro: star_sound plus_sound question_sound)

lemma makeTermHandler_sound:
  assumes "\<And>ru. sound (rh ru)"
  shows "csound (makeTermHandler E g rh t)"
proof (induction t)
  case (TParens rhs)
  then have "list_all csound (map (\<lambda>ts. groupOf (map (makeTermHandler E g rh) ts)) rhs)"
    by (auto simp: list_all_iff intro!: groupOf_sound)
  then show ?case by (auto intro: rhsOf_sound)
next
  case (TNegPred t)
  then show ?case
    by (cases "makeTermHandler E g rh t") (auto simp: csound_def intro: predicate_sound)
next
  case (TPred t)
  then show ?case
    by (cases "makeTermHandler E g rh t") (auto simp: csound_def intro: predicate_sound)
next
  case (TSpecial t c)
  show ?case
  proof (cases "makeTermHandler E g rh t")
    case (Inl e)
    then show ?thesis by (simp add: csound_def)
  next
    case (Inr h)
    with TSpecial have "sound h" by (simp add: csound_def)
    from makeSpecialHandler_sound [OF this] Inr show ?thesis by simp
  qed
next
  case (TCapture rhs)
  then have "list_all csound (map (\<lambda>ts. groupOf (map (makeTermHandler E g rh) ts)) rhs)"
    by (auto simp: list_all_iff intro!: groupOf_sound)
  from rhsOf_sound [OF this, of E rhs] show ?case
    by (cases "rhsOf E rhs (map (\<lambda>ts. groupOf (map (makeTermHandler E g rh) ts)) rhs)")
      (auto simp: csound_def intro: capture_sound)
next
  case (TCharClass cc)
  then show ?case by (simp add: csound_def charclass_sound)
next
  case (TLiteral l)
  then show ?case by (simp add: csound_def literal_sound)
next
  case (TIdent i)
  then show ?case using assms
    by (auto simp: csound_def makeRuleHandler_def intro: apply_sound split: option.splits)
qed

lemma makeRHSHandler_sound:
  assumes "\<And>ru. sound (rh ru)"
  shows "csound (makeRHSHandler E g rh rhs)"
  unfolding makeRHSHandler_def makeGroupHandler_def
  by (auto simp: list_all_iff intro!: rhsOf_sound groupOf_sound makeTermHandler_sound assms)

lemma ruleHandler_sound: "sound (ruleHandler E g n ru)"
proof (induction n arbitrary: ru)
  case 0
  show ?case by (rule soundI) simp
next
  case (Suc n)
  from makeRHSHandler_sound [of "ruleHandler E g n" E g "RHS ru", OF Suc.IH]
  show ?case
    by (cases "makeRHSHandler E g (ruleHandler E g n) (RHS ru)")
      (auto simp: csound_def intro: soundI)
qed

lemma compiled_sound:
  "makeTermHandler E g (ruleHandler E g n) t = Inr h \<Longrightarrow> sound h"
  using makeTermHandler_sound [of "ruleHandler E g n" E g t, OF ruleHandler_sound]
  by (simp add: csound_def)


section \<open>The star matcher\<close>

lemma repeatLoop_returns:
  assumes stack: "\<And>s. I s \<Longrightarrow> nodeStack s \<noteq> []"
    and step: "\<And>s p. I s \<Longrightarrow> 0 \<le> p \<Longrightarrow> p \<le> n \<Longrightarrow>
                 \<exists>w e s'. h s p = Some (Ret w e s') \<and> I s' \<and> (e = None \<longrightarrow> p + w \<le> n)"
  shows "I r \<Longrightarrow> 0 \<le> pos + ww \<Longrightarrow> pos + ww \<le> n \<Longrightarrow>
         \<exists>ww' e r'. repeatLoop h pos ww save r = Some (Ret ww' e r')"
proof (induction "nat (n - (pos + ww))" arbitrary: ww save r rule: less_induct)
  case less
  from step [OF less.prems] obtain w e r1 where
    run: "h r (pos + ww) = Some (Ret w e r1)" and inv: "I r1"
    and bound: "e = None \<longrightarrow> pos + ww + w \<le> n"
    by blast
  from stack [OF inv] obtain tn ns where ns: "nodeStack r1 = tn # ns"
    by (cases "nodeStack r1") auto
  show ?case
  proof (cases "e = None \<and> 0 < w")
    case True
    with bound less.prems have "nat (n - (pos + (ww + w))) < nat (n - (pos + ww))"
      and "0 \<le> pos + (ww + w)" and "pos + (ww + w) \<le> n"
      by auto
    from less.hyps [OF this(1) inv this(2) this(3)] obtain ww' e' r' where
      "repeatLoop h pos (ww + w) (Children tn) r1 = Some (Ret ww' e' r')"
      by blast
    with True run ns show ?thesis
      by (subst repeatLoop.simps) (auto simp: TopNode_def)
  next
    case False
    with run ns show ?thesis
      by (subst repeatLoop.simps) (auto simp: setTopChildren_def)
  qed
qed

lemma makeStarHandler_returns:
  assumes "I r" and "0 \<le> pos" and "pos \<le> n"
    and "\<And>s. I s \<Longrightarrow> nodeStack s \<noteq> []"
    and "\<And>s p. I s \<Longrightarrow> 0 \<le> p \<Longrightarrow> p \<le> n \<Longrightarrow>
           \<exists>w e s'. h s p = Some (Ret w e s') \<and> I s' \<and> (e = None \<longrightarrow> p + w \<le> n)"
  shows "\<exists>w r'. makeStarHandler h r pos = Some (Ret w None r')"
proof -
  from assms(1,4) obtain tn ns where ns: "nodeStack r = tn # ns"
    by (cases "nodeStack r") auto
  from assms have "\<exists>ww' e r'. repeatLoop h pos 0 (Children tn) r = Some (Ret ww' e r')"
    by (intro repeatLoop_returns [where I = I and n = n]) auto
  with ns show ?thesis
    by (auto simp: makeStarHandler_def TopNode_def)
qed

text \<open>
  A run of the loop that returns is a list of iterations followed by one call of the
  inner matcher that fails or has width 0, and the other way round.
\<close>

lemma lastState_Cons: "lastState r ((w, r1) # its) = lastState r1 its"
  by (simp add: lastState_def)

lemma widths_simps [simp]: "widths [] = 0" "widths ((w, r1) # its) = w + widths its"
  by (simp_all add: widths_def)

lemma repeatLoop_trace_all:
  assumes run: "repeatLoop h pos ww save r = Some y"
  shows "\<forall>wt e r'. y = Ret wt e r' \<longrightarrow>
         (\<exists>its w1 r2. iterations h (pos + ww) r its \<and> wt = ww + widths its \<and>
            h (lastState r its) (pos + wt) = Some (Ret w1 e r2) \<and> \<not> (e = None \<and> 0 < w1) \<and>
            setTopChildren r2
              (if its = [] then save else Children (hd (nodeStack (lastState r its)))) = Some r')"
proof (rule repeatLoop.raw_induct
    [where P = "\<lambda>h pos ww save r y. \<forall>wt e r'. y = Ret wt e r' \<longrightarrow>
         (\<exists>its w1 r2. iterations h (pos + ww) r its \<and> wt = ww + widths its \<and>
            h (lastState r its) (pos + wt) = Some (Ret w1 e r2) \<and> \<not> (e = None \<and> 0 < w1) \<and>
            setTopChildren r2
              (if its = [] then save else Children (hd (nodeStack (lastState r its)))) = Some r')",
      OF _ run])
  fix rl :: "handler \<Rightarrow> int \<Rightarrow> int \<Rightarrow> Node list \<Rightarrow> Result \<Rightarrow> hres option"
    and h pos ww save r y
  assume IH: "\<And>h pos ww save r y. rl h pos ww save r = Some y \<Longrightarrow>
       \<forall>wt e r'. y = Ret wt e r' \<longrightarrow>
         (\<exists>its w1 r2. iterations h (pos + ww) r its \<and> wt = ww + widths its \<and>
            h (lastState r its) (pos + wt) = Some (Ret w1 e r2) \<and> \<not> (e = None \<and> 0 < w1) \<and>
            setTopChildren r2
              (if its = [] then save else Children (hd (nodeStack (lastState r its)))) = Some r')"
    and step: "(case h r (pos + ww) of
                  None \<Rightarrow> None
                | Some Exit \<Rightarrow> Some Exit
                | Some (Ret w err r1) \<Rightarrow>
                    if err = None \<and> 0 < w
                    then (case TopNode r1 of
                            None \<Rightarrow> Some Exit
                          | Some tn \<Rightarrow> rl h pos (ww + w) (Children tn) r1)
                    else (case setTopChildren r1 save of
                            None \<Rightarrow> Some Exit
                          | Some r2 \<Rightarrow> Some (Ret ww err r2))) = Some y"
  show "\<forall>wt e r'. y = Ret wt e r' \<longrightarrow>
         (\<exists>its w1 r2. iterations h (pos + ww) r its \<and> wt = ww + widths its \<and>
            h (lastState r its) (pos + wt) = Some (Ret w1 e r2) \<and> \<not> (e = None \<and> 0 < w1) \<and>
            setTopChildren r2
              (if its = [] then save else Children (hd (nodeStack (lastState r its)))) = Some r')"
  proof (intro allI impI)
    fix wt e r'
    assume y: "y = Ret wt e r'"
    from step y obtain w1 e1 r1 where run1: "h r (pos + ww) = Some (Ret w1 e1 r1)"
      by (auto split: option.splits hres.splits)
    show "\<exists>its w1 r2. iterations h (pos + ww) r its \<and> wt = ww + widths its \<and>
            h (lastState r its) (pos + wt) = Some (Ret w1 e r2) \<and> \<not> (e = None \<and> 0 < w1) \<and>
            setTopChildren r2
              (if its = [] then save else Children (hd (nodeStack (lastState r its)))) = Some r'"
    proof (cases "e1 = None \<and> 0 < w1")
      case True
      with run1 step y obtain tn where tn: "TopNode r1 = Some tn"
        and rec: "rl h pos (ww + w1) (Children tn) r1 = Some (Ret wt e r')"
        by (auto split: option.splits)
      from tn have ns: "nodeStack r1 \<noteq> []" and hd: "hd (nodeStack r1) = tn"
        by (auto simp: TopNode_def split: list.splits)
      from IH [OF rec] obtain its w2 r2 where
        t: "iterations h (pos + (ww + w1)) r1 its" "wt = ww + w1 + widths its"
          "h (lastState r1 its) (pos + wt) = Some (Ret w2 e r2)" "\<not> (e = None \<and> 0 < w2)"
          "setTopChildren r2
              (if its = [] then Children tn else Children (hd (nodeStack (lastState r1 its))))
             = Some r'"
        by blast
      let ?its = "(w1, r1) # its"
      from True run1 ns t(1) have "iterations h (pos + ww) r ?its" by (simp add: add.assoc)
      moreover from t(2) have "wt = ww + widths ?its" by simp
      moreover from t(3) have "h (lastState r ?its) (pos + wt) = Some (Ret w2 e r2)"
        by (simp add: lastState_Cons)
      moreover from t(5) hd have "setTopChildren r2
          (if ?its = [] then save else Children (hd (nodeStack (lastState r ?its)))) = Some r'"
        by (auto simp: lastState_def)
      ultimately show ?thesis using t(4) by blast
    next
      case False
      with run1 step y have out: "wt = ww" "e = e1" "setTopChildren r1 save = Some r'"
        by (auto split: option.splits)
      have "iterations h (pos + ww) r []" by simp
      moreover from out have "wt = ww + widths []" by simp
      moreover from run1 out have "h (lastState r []) (pos + wt) = Some (Ret w1 e r1)"
        by (simp add: lastState_def)
      moreover from out have "setTopChildren r1
          (if ([] :: (int \<times> Result) list) = [] then save
           else Children (hd (nodeStack (lastState r [])))) = Some r'" by simp
      ultimately show ?thesis using False out by blast
    qed
  qed
qed

lemma repeatLoop_of_trace:
  "iterations h (pos + ww) r its \<Longrightarrow>
   h (lastState r its) (pos + ww + widths its) = Some (Ret w1 e r2) \<Longrightarrow>
   \<not> (e = None \<and> 0 < w1) \<Longrightarrow>
   setTopChildren r2
     (if its = [] then save else Children (hd (nodeStack (lastState r its)))) = Some r' \<Longrightarrow>
   repeatLoop h pos ww save r = Some (Ret (ww + widths its) e r')"
proof (induction its arbitrary: ww save r)
  case Nil
  then show ?case
    by (subst repeatLoop.simps) (auto simp: lastState_def)
next
  case (Cons it its)
  obtain w r1 where it: "it = (w, r1)" by (cases it)
  from Cons.prems(1) it have run: "h r (pos + ww) = Some (Ret w None r1)" and w: "0 < w"
    and ns: "nodeStack r1 \<noteq> []" and rest: "iterations h (pos + (ww + w)) r1 its"
    by (simp_all add: add.assoc)
  from ns obtain tn where tn: "TopNode r1 = Some tn" and hd: "hd (nodeStack r1) = tn"
    by (cases "nodeStack r1") (auto simp: TopNode_def)
  from Cons.prems(2) it have last: "h (lastState r1 its) (pos + (ww + w) + widths its)
      = Some (Ret w1 e r2)"
    by (simp add: lastState_Cons add.assoc)
  from Cons.prems(4) it hd have restore: "setTopChildren r2
     (if its = [] then Children tn else Children (hd (nodeStack (lastState r1 its)))) = Some r'"
    by (auto simp: lastState_def)
  from Cons.IH [OF rest last Cons.prems(3) restore]
  have "repeatLoop h pos (ww + w) (Children tn) r1 = Some (Ret (ww + w + widths its) e r')" .
  with run w tn it show ?case
    by (subst repeatLoop.simps) (simp add: add.assoc)
qed

lemma makeStarHandler_trace:
  "makeStarHandler h r pos = Some (Ret ww e r') \<longleftrightarrow>
     (e = None \<and> nodeStack r \<noteq> [] \<and>
      (\<exists>its w1 e1 r2 r3. iterations h pos r its \<and> ww = widths its \<and>
         h (lastState r its) (pos + ww) = Some (Ret w1 e1 r2) \<and> \<not> (e1 = None \<and> 0 < w1) \<and>
         setTopChildren r2 (Children (hd (nodeStack (lastState r its)))) = Some r3 \<and>
         r' = (if ww = 0 \<and> e1 \<noteq> None then r3\<lparr>fyiError := e1\<rparr> else r3)))"
  (is "?L \<longleftrightarrow> ?R")
proof
  assume L: ?L
  then obtain tn where tn: "TopNode r = Some tn"
    by (auto simp: makeStarHandler_def split: option.splits)
  then have ns: "nodeStack r \<noteq> []" and hd: "hd (nodeStack r) = tn"
    by (auto simp: TopNode_def split: list.splits)
  from L tn obtain e2 r3 where loop: "repeatLoop h pos 0 (Children tn) r = Some (Ret ww e2 r3)"
    and out: "e = None" "r' = (if ww = 0 \<and> e2 \<noteq> None then r3\<lparr>fyiError := e2\<rparr> else r3)"
    by (auto simp: makeStarHandler_def split: option.splits hres.splits)
  from repeatLoop_trace_all [OF loop] obtain its w1 r2 where
    t: "iterations h pos r its" "ww = widths its"
      "h (lastState r its) (pos + ww) = Some (Ret w1 e2 r2)" "\<not> (e2 = None \<and> 0 < w1)"
      "setTopChildren r2
         (if its = [] then Children tn else Children (hd (nodeStack (lastState r its)))) = Some r3"
    by auto
  from t(5) hd have "setTopChildren r2 (Children (hd (nodeStack (lastState r its)))) = Some r3"
    by (auto simp: lastState_def)
  with t out ns show ?R by blast
next
  assume R: ?R
  then obtain its w1 e1 r2 r3 where e: "e = None" and ns: "nodeStack r \<noteq> []"
    and t: "iterations h pos r its" "ww = widths its"
      "h (lastState r its) (pos + ww) = Some (Ret w1 e1 r2)" "\<not> (e1 = None \<and> 0 < w1)"
      "setTopChildren r2 (Children (hd (nodeStack (lastState r its)))) = Some r3"
      "r' = (if ww = 0 \<and> e1 \<noteq> None then r3\<lparr>fyiError := e1\<rparr> else r3)"
    by blast
  from ns obtain tn where tn: "TopNode r = Some tn" and hd: "hd (nodeStack r) = tn"
    by (cases "nodeStack r") (auto simp: TopNode_def)
  from t(5) hd have restore: "setTopChildren r2
     (if its = [] then Children tn else Children (hd (nodeStack (lastState r its)))) = Some r3"
    by (auto simp: lastState_def)
  from repeatLoop_of_trace [of h pos 0 r its w1 e1 r2 "Children tn" r3] t restore
  have "repeatLoop h pos 0 (Children tn) r = Some (Ret ww e1 r3)" by simp
  with tn e t(6) show ?L by (simp add: makeStarHandler_def)
qed

text \<open>
  Two inner matchers under which the star matcher does not return: one that succeeds
  with width 1 wherever it is called, and the rule reference of \<open>A <- A*\<close>, whose
  application runs the star matcher again before any entry is in the memo table.
\<close>

lemma repeatLoop_stepOne:
  assumes run: "repeatLoop h pos ww save r = Some y"
  shows "h = stepOne \<longrightarrow> nodeStack r \<noteq> [] \<longrightarrow> False"
proof (rule repeatLoop.raw_induct
    [where P = "\<lambda>h pos ww save r y. h = stepOne \<longrightarrow> nodeStack r \<noteq> [] \<longrightarrow> False", OF _ run])
  fix rl :: "handler \<Rightarrow> int \<Rightarrow> int \<Rightarrow> Node list \<Rightarrow> Result \<Rightarrow> hres option"
    and h pos ww save r y
  assume IH: "\<And>h pos ww save r y. rl h pos ww save r = Some y \<Longrightarrow>
       h = stepOne \<longrightarrow> nodeStack r \<noteq> [] \<longrightarrow> False"
    and step: "(case h r (pos + ww) of
                  None \<Rightarrow> None
                | Some Exit \<Rightarrow> Some Exit
                | Some (Ret w err r1) \<Rightarrow>
                    if err = None \<and> 0 < w
                    then (case TopNode r1 of
                            None \<Rightarrow> Some Exit
                          | Some tn \<Rightarrow> rl h pos (ww + w) (Children tn) r1)
                    else (case setTopChildren r1 save of
                            None \<Rightarrow> Some Exit
                          | Some r2 \<Rightarrow> Some (Ret ww err r2))) = Some y"
  show "h = stepOne \<longrightarrow> nodeStack r \<noteq> [] \<longrightarrow> False"
  proof (intro impI)
    assume h: "h = stepOne" and ns: "nodeStack r \<noteq> []"
    then obtain tn where tn: "TopNode r = Some tn"
      by (cases "nodeStack r") (auto simp: TopNode_def)
    with step h have "rl stepOne pos (ww + 1) (Children tn) r = Some y"
      by (simp add: stepOne_def)
    from IH [OF this] ns show False by simp
  qed
qed

lemma star_stepOne: "nodeStack r \<noteq> [] \<Longrightarrow> makeStarHandler stepOne r pos = None"
proof -
  assume ns: "nodeStack r \<noteq> []"
  then obtain tn where tn: "TopNode r = Some tn"
    by (cases "nodeStack r") (auto simp: TopNode_def)
  have "repeatLoop stepOne pos 0 (Children tn) r = None"
  proof (cases "repeatLoop stepOne pos 0 (Children tn) r")
    case (Some y)
    from repeatLoop_stepOne [OF this] ns show ?thesis by simp
  qed simp
  with tn show ?thesis by (simp add: makeStarHandler_def)
qed

lemma ruleLeft_handler:
  "ruleHandler E0 gLeft (Suc n) ruleLeft =
     makeStarHandler (\<lambda>r pos. Result_apply (ruleHandler E0 gLeft n ruleLeft) ''A'' r pos)"
  by (simp add: handler_defs gLeft_def ruleLeft_def)

lemma ruleLeft_never_returns:
  "memo r (pos, ''A'') = None \<Longrightarrow> nodeStack r \<noteq> [] \<Longrightarrow>
   ruleHandler E0 gLeft n ruleLeft r pos = None"
proof (induction n arbitrary: r)
  case 0
  show ?case by simp
next
  case (Suc n)
  let ?h = "\<lambda>r pos. Result_apply (ruleHandler E0 gLeft n ruleLeft) ''A'' r pos"
  from Suc.prems obtain tn where tn: "TopNode r = Some tn"
    by (cases "nodeStack r") (auto simp: TopNode_def)
  from Suc.prems have
    "ruleHandler E0 gLeft n ruleLeft (r\<lparr>nodeStack := newNode ''A'' pos # nodeStack r\<rparr>) pos = None"
    by (intro Suc.IH) simp_all
  with Suc.prems have "?h r pos = None" by (simp add: Result_apply_def)
  then have "repeatLoop ?h pos 0 (Children tn) r = None"
    by (subst repeatLoop.simps) simp
  with tn show ?case unfolding ruleLeft_handler by (simp add: makeStarHandler_def)
qed

lemma gLeft_never_returns: "Parse E0 n gLeft ''x'' = None"
proof -
  have "ruleHandler E0 gLeft n ruleLeft
          ((newResult gLeft ''x'')\<lparr>nodeStack := newNode ''A'' 0 # nodeStack (newResult gLeft ''x'')\<rparr>) 0
        = None"
    by (rule ruleLeft_never_returns) (simp_all add: newResult_def)
  then have "Result_apply (ruleHandler E0 gLeft n ruleLeft) ''A'' (newResult gLeft ''x'') 0 = None"
    by (simp add: Result_apply_def newResult_def)
  then show ?thesis by (simp add: Parse_def gLeft_def ruleLeft_def)
qed

text \<open>
  C7 as stated, for every inner matcher, fails: the star matcher over the matcher that
  always succeeds with width 1 does not return, and neither does the parse of \<open>x\<close>
  with the grammar \<open>A <- A*\<close>, under any depth bound.
\<close>

theorem makeStarHandler_nonreturning_counterexample:
  "nodeStack starState \<noteq> [] \<and> makeStarHandler stepOne starState 0 = None \<and>
   (\<forall>n. Parse E0 n gLeft ''x'' = None)"
proof -
  have ns: "nodeStack starState \<noteq> []" by (simp add: starState_def)
  from star_stepOne [OF ns] gLeft_never_returns ns show ?thesis by blast
qed

text \<open>
  C7, amended. The star matcher never returns an error, for any inner matcher \<open>h\<close>,
  state and position. It returns \<open>(ww, nil)\<close> exactly when there are iterations of
  \<open>h\<close> from \<open>pos\<close>, each a success of width above 0, of total width \<open>ww\<close>,
  followed by a call of \<open>h\<close> that fails or has width 0: that call ends the loop, its
  width is not counted, and the children of the top node are set back to those after
  the last iteration. For \<open>h\<close> compiled from a term of the grammar, on a well-formed
  state and a position within the input, the star matcher returns, with success,
  provided \<open>h\<close> itself returns on every well-formed state over the same input. A
  success of width 0 of the first call ends the loop at once with width 0.
\<close>

theorem makeStarHandler_succeeds:
  "(\<forall>w e r'. makeStarHandler h r pos = Some (Ret w e r') \<longrightarrow> e = None) \<and>
   (makeStarHandler h r pos = Some (Ret ww err r') \<longleftrightarrow>
      (err = None \<and> nodeStack r \<noteq> [] \<and>
       (\<exists>its w1 e1 r2 r3. iterations h pos r its \<and> ww = widths its \<and>
          h (lastState r its) (pos + ww) = Some (Ret w1 e1 r2) \<and> \<not> (e1 = None \<and> 0 < w1) \<and>
          setTopChildren r2 (Children (hd (nodeStack (lastState r its)))) = Some r3 \<and>
          r' = (if ww = 0 \<and> e1 \<noteq> None then r3\<lparr>fyiError := e1\<rparr> else r3)))) \<and>
   (makeTermHandler E g (ruleHandler E g n) t = Inr h \<and> wfState r \<and> 0 \<le> pos \<and> pos \<le> srclen r \<and>
    (\<forall>s p. wfState s \<and> Source s = Source r \<and> 0 \<le> p \<and> p \<le> srclen r \<longrightarrow>
       (\<exists>w e s'. h s p = Some (Ret w e s')))
      \<longrightarrow> (\<exists>w r'. makeStarHandler h r pos = Some (Ret w None r'))) \<and>
   (\<forall>tn r1 r2. TopNode r = Some tn \<and> h r pos = Some (Ret 0 None r1) \<and>
       setTopChildren r1 (Children tn) = Some r2
      \<longrightarrow> makeStarHandler h r pos = Some (Ret 0 None r2))"
proof (intro conjI allI impI)
  fix w e r'
  assume "makeStarHandler h r pos = Some (Ret w e r')"
  then show "e = None"
    by (auto simp: makeStarHandler_def split: option.splits hres.splits)
next
  show "makeStarHandler h r pos = Some (Ret ww err r') \<longleftrightarrow>
      (err = None \<and> nodeStack r \<noteq> [] \<and>
       (\<exists>its w1 e1 r2 r3. iterations h pos r its \<and> ww = widths its \<and>
          h (lastState r its) (pos + ww) = Some (Ret w1 e1 r2) \<and> \<not> (e1 = None \<and> 0 < w1) \<and>
          setTopChildren r2 (Children (hd (nodeStack (lastState r its)))) = Some r3 \<and>
          r' = (if ww = 0 \<and> e1 \<noteq> None then r3\<lparr>fyiError := e1\<rparr> else r3)))"
    by (rule makeStarHandler_trace)
next
  assume a: "makeTermHandler E g (ruleHandler E g n) t = Inr h \<and> wfState r \<and> 0 \<le> pos \<and>
    pos \<le> srclen r \<and>
    (\<forall>s p. wfState s \<and> Source s = Source r \<and> 0 \<le> p \<and> p \<le> srclen r \<longrightarrow>
       (\<exists>w e s'. h s p = Some (Ret w e s')))"
  then have sh: "sound h" by (auto dest: compiled_sound)
  let ?I = "\<lambda>s. wfState s \<and> Source s = Source r"
  have stack: "\<And>s. ?I s \<Longrightarrow> nodeStack s \<noteq> []" by (simp add: wfState_def)
  have step: "\<exists>w e s'. h s p = Some (Ret w e s') \<and> ?I s' \<and> (e = None \<longrightarrow> p + w \<le> srclen r)"
    if "?I s" "0 \<le> p" "p \<le> srclen r" for s p
  proof -
    from a that obtain w e s' where run: "h s p = Some (Ret w e s')" by blast
    from that have len: "srclen s = srclen r" by (simp add: srclen_def)
    from soundD [OF sh _ that(2) _ run] that len
    have "wfState s'" "sameFrame s s'" "p + w \<le> srclen r" by auto
    with run that(1) show ?thesis by (auto simp: sameFrame_def)
  qed
  show "\<exists>w r'. makeStarHandler h r pos = Some (Ret w None r')"
  proof (rule makeStarHandler_returns [where I = ?I and n = "srclen r"])
    from a show "wfState r \<and> Source r = Source r" by simp
    from a show "0 \<le> pos" by simp
    from a show "pos \<le> srclen r" by simp
    show "\<And>s. wfState s \<and> Source s = Source r \<Longrightarrow> nodeStack s \<noteq> []" by (rule stack)
    show "\<And>s p. wfState s \<and> Source s = Source r \<Longrightarrow> 0 \<le> p \<Longrightarrow> p \<le> srclen r \<Longrightarrow>
            \<exists>w e s'. h s p = Some (Ret w e s') \<and> (wfState s' \<and> Source s' = Source r) \<and>
                      (e = None \<longrightarrow> p + w \<le> srclen r)"
      by (rule step)
  qed
next
  fix tn r1 r2
  assume "TopNode r = Some tn \<and> h r pos = Some (Ret 0 None r1) \<and>
          setTopChildren r1 (Children tn) = Some r2"
  then show "makeStarHandler h r pos = Some (Ret 0 None r2)"
    by (simp add: makeStarHandler_def repeatLoop.simps)
qed

lemma pair_compiled:
  "makeTermHandler E0 gStar (ruleHandler E0 gStar 0) pairTerm = Inr pairHandler"
  by (simp add: pairTerm_def pairHandler_def rhsOf_def groupOf_def)

lemma pair_runs:
  "pairHandler starState 0 = Some (Ret 1 (Some (ExpectingLiteral ''y'' ''x'')) starState)"
  "pairHandler pairState 0 = Some (Ret 2 None pairState)"
  "pairHandler pairState 2 = Some (Ret 2 None pairState)"
  "pairHandler pairState 4 = Some (Ret 1 (Some (ExpectingGot ''y'' [])) pairState)"
  by (simp_all add: pairHandler_def groupHandler_def makeLiteralHandler_def slice_def
      starState_def pairState_def newResult_def)

text \<open>
  The statement at concrete matchers: \<open>'x'*\<close> on \<open>xxy\<close> returns; \<open>(&'x')*\<close> ends
  with width 0; \<open>('x' 'y')*\<close> on \<open>xxy\<close> has width 0, as its first call fails after
  one byte; on \<open>xyxyx\<close> it has width 4, two iterations and a failing call at 4.
\<close>

theorem makeStarHandler_succeeds_witness:
  "wfState starState \<and>
   makeTermHandler E0 gStar (ruleHandler E0 gStar 0) (TLiteral ''x'') = Inr (makeLiteralHandler ''x'') \<and>
   (\<exists>w r'. makeStarHandler (makeLiteralHandler ''x'') starState 0 = Some (Ret w None r')) \<and>
   makeStarHandler (makePredicateHandler (makeLiteralHandler ''x'') True) starState 0
     = Some (Ret 0 None starState) \<and>
   makeTermHandler E0 gStar (ruleHandler E0 gStar 0) pairTerm = Inr pairHandler \<and>
   pairHandler starState 0 = Some (Ret 1 (Some (ExpectingLiteral ''y'' ''x'')) starState) \<and>
   makeStarHandler pairHandler starState 0
     = Some (Ret 0 None (starState\<lparr>fyiError := Some (ExpectingLiteral ''y'' ''x'')\<rparr>)) \<and>
   iterations pairHandler 0 pairState [(2, pairState), (2, pairState)] \<and>
   pairHandler pairState 4 = Some (Ret 1 (Some (ExpectingGot ''y'' [])) pairState) \<and>
   makeStarHandler pairHandler pairState 0 = Some (Ret 4 None pairState)"
proof -
  have wf: "wfState starState"
    by (simp add: wfState_def starState_def newResult_def newNode_def srclen_def)
  have comp: "makeTermHandler E0 gStar (ruleHandler E0 gStar 0) (TLiteral ''x'')
                = Inr (makeLiteralHandler ''x'')"
    by simp
  have len: "srclen starState = 3"
    by (simp add: srclen_def starState_def newResult_def)
  have step: "\<forall>s p. wfState s \<and> Source s = Source starState \<and> 0 \<le> p \<and> p \<le> srclen starState
      \<longrightarrow> (\<exists>w e s'. makeLiteralHandler ''x'' s p = Some (Ret w e s'))"
    unfolding len by (auto simp: makeLiteralHandler_def slice_def starState_def newResult_def)
  have pos: "(0::int) \<le> 0" "0 \<le> srclen starState" by (simp_all add: len)
  from makeStarHandler_succeeds
    [of "makeLiteralHandler ''x''" starState 0 _ _ _ E0 gStar 0 "TLiteral ''x''",
      THEN conjunct2, THEN conjunct2, THEN conjunct1, rule_format]
    comp wf pos step
  have a: "\<exists>w r'. makeStarHandler (makeLiteralHandler ''x'') starState 0 = Some (Ret w None r')"
    by blast
  have top: "TopNode starState = Some (newNode ''A'' 0)"
    by (simp add: TopNode_def starState_def)
  have run: "makePredicateHandler (makeLiteralHandler ''x'') True starState 0
               = Some (Ret 0 None starState)"
    by (simp add: makePredicateHandler_def makeLiteralHandler_def starState_def newResult_def
        slice_def)
  have restore: "setTopChildren starState (Children (newNode ''A'' 0)) = Some starState"
    by (simp add: setTopChildren_def starState_def newNode_def setChildren_def)
  from makeStarHandler_succeeds
    [of "makePredicateHandler (makeLiteralHandler ''x'') True" starState 0,
      THEN conjunct2, THEN conjunct2, THEN conjunct2, rule_format]
    top run restore
  have b: "makeStarHandler (makePredicateHandler (makeLiteralHandler ''x'') True) starState 0
             = Some (Ret 0 None starState)"
    by blast
  have ns: "nodeStack starState \<noteq> []" "nodeStack pairState \<noteq> []"
    by (simp_all add: starState_def pairState_def)
  have restore0: "setTopChildren starState (Children (hd (nodeStack starState))) = Some starState"
    by (simp add: setTopChildren_def starState_def newNode_def setChildren_def)
  have ex0: "\<exists>its w1 e1 r2 r3. iterations pairHandler 0 starState its \<and> 0 = widths its \<and>
      pairHandler (lastState starState its) (0 + 0) = Some (Ret w1 e1 r2) \<and>
      \<not> (e1 = None \<and> 0 < w1) \<and>
      setTopChildren r2 (Children (hd (nodeStack (lastState starState its)))) = Some r3 \<and>
      starState\<lparr>fyiError := Some (ExpectingLiteral ''y'' ''x'')\<rparr>
        = (if (0::int) = 0 \<and> e1 \<noteq> None then r3\<lparr>fyiError := e1\<rparr> else r3)"
    apply (rule exI [where x = "[]"])
    apply (rule exI [where x = 1])
    apply (rule exI [where x = "Some (ExpectingLiteral ''y'' ''x'')"])
    apply (rule exI [where x = starState])
    apply (rule exI [where x = starState])
    apply (simp add: lastState_def pair_runs(1) restore0)
    done
  have c: "makeStarHandler pairHandler starState 0
     = Some (Ret 0 None (starState\<lparr>fyiError := Some (ExpectingLiteral ''y'' ''x'')\<rparr>))"
    by (rule makeStarHandler_succeeds
        [of pairHandler starState 0 0 None
          "starState\<lparr>fyiError := Some (ExpectingLiteral ''y'' ''x'')\<rparr>",
          THEN conjunct2, THEN conjunct1, THEN iffD2])
      (intro conjI refl ns ex0)
  have it2: "iterations pairHandler 0 pairState [(2, pairState), (2, pairState)]"
    using pair_runs(2,3) ns by simp
  have restore2: "setTopChildren pairState (Children (hd (nodeStack pairState))) = Some pairState"
    by (simp add: setTopChildren_def pairState_def newNode_def setChildren_def)
  have ex2: "\<exists>its w1 e1 r2 r3. iterations pairHandler 0 pairState its \<and> 4 = widths its \<and>
      pairHandler (lastState pairState its) (0 + 4) = Some (Ret w1 e1 r2) \<and>
      \<not> (e1 = None \<and> 0 < w1) \<and>
      setTopChildren r2 (Children (hd (nodeStack (lastState pairState its)))) = Some r3 \<and>
      pairState = (if (4::int) = 0 \<and> e1 \<noteq> None then r3\<lparr>fyiError := e1\<rparr> else r3)"
    apply (rule exI [where x = "[(2, pairState), (2, pairState)]"])
    apply (rule exI [where x = 1])
    apply (rule exI [where x = "Some (ExpectingGot ''y'' [])"])
    apply (rule exI [where x = pairState])
    apply (rule exI [where x = pairState])
    apply (simp add: lastState_def pair_runs restore2 ns)
    done
  have d: "makeStarHandler pairHandler pairState 0 = Some (Ret 4 None pairState)"
    by (rule makeStarHandler_succeeds
        [of pairHandler pairState 0 4 None pairState,
          THEN conjunct2, THEN conjunct1, THEN iffD2])
      (intro conjI refl ns ex2)
  from wf comp a b c d pair_compiled pair_runs(1,4) it2 show ?thesis by blast
qed

section \<open>Bounds of the tree and balance of the stack\<close>

lemma bounded_subnodes:
  "bounded L n \<Longrightarrow> m \<in> set (subnodes n) \<Longrightarrow> 0 \<le> Pos m \<and> 0 \<le> Len m \<and> Pos m + Len m \<le> L"
proof (induction n)
  case (Node l t c p len row col chs e a ta)
  then show ?case by (auto simp: list_all_iff)
qed

lemma top_apply_bounded:
  assumes sh: "sound h"
    and run: "Result_apply h ident (newResult g input) 0 = Some (Ret w e r)"
    and tree: "Tree r = Some t"
  shows "bounded (int (length input)) t"
proof -
  let ?r0 = "newResult g input"
  let ?r1 = "?r0\<lparr>nodeStack := newNode ident 0 # nodeStack ?r0\<rparr>"
  have miss: "memo ?r0 (0, ident) = None" by (simp add: newResult_def)
  have wf1: "wfState ?r1"
    by (simp add: wfState_def newResult_def newNode_def srclen_def)
  have len1: "srclen ?r1 = int (length input)" by (simp add: srclen_def newResult_def)
  from miss run obtain w1 e1 r2 where y: "h ?r1 0 = Some (Ret w1 e1 r2)"
    by (auto simp: Result_apply_def split: option.splits hres.splits)
  from soundD [OF sh wf1 _ _ y] len1 have
    r2: "wfState r2" "sameFrame ?r1 r2" "0 \<le> w1" "w1 \<le> int (length input)" by auto
  from sameFrame_srclen [OF r2(2)] len1 have len2: "srclen r2 = int (length input)" by simp
  from wfState_top [OF r2(1)] obtain n ns where ns: "nodeStack r2 = n # ns"
    and bn: "bounded (srclen r2) n" by blast
  from r2(2) ns have tl: "ns = []" and posn: "Pos n = 0" and tr: "Tree r2 = None"
    by (auto simp: sameFrame_def newNode_def newResult_def)
  from bounded_setLenErr [OF bn r2(3)] posn r2(4) len2
  have bn': "bounded (int (length input)) (setLenErr n w1 e1)" by simp
  from miss run y ns tl tr have "Tree r = Some (setLenErr n w1 e1)"
    by (auto simp: Result_apply_def Let_def Attach_def split: if_splits)
  with tree bn' show ?thesis by simp
qed

text \<open>
  Every node of the tree that \<open>Parse\<close> returns, with or without an error, lies within
  the input: position and length are at least 0 and the end is at most the length of
  the input.
\<close>

theorem Parse_tree_in_input:
  assumes "Parse E n g input = Some (PRet (Some r) err)"
    and "Tree r = Some t"
    and "m \<in> set (subnodes t)"
  shows "0 \<le> Pos m \<and> 0 \<le> Len m \<and> Pos m + Len m \<le> int (length input)"
proof -
  from assms(1) obtain topRule rest where names: "RuleNames g = topRule # rest"
    by (cases "RuleNames g") (auto simp: Parse_def)
  with assms(1) obtain tr where tr: "Rules g topRule = Some tr"
    by (cases "Rules g topRule") (auto simp: Parse_def)
  with names assms(1) obtain w e r0 where
    run: "Result_apply (ruleHandler E g n tr) (Ident tr) (newResult g input) 0 = Some (Ret w e r0)"
    and out: "afterApply g input w e r0 = PRet (Some r) err"
    by (auto simp: Parse_def split: option.splits hres.splits)
  from out have "r = r0"
    by (auto simp: afterApply_def split: if_splits option.splits)
  with top_apply_bounded [OF ruleHandler_sound run] assms(2)
  have "bounded (int (length input)) t" by simp
  from bounded_subnodes [OF this assms(3)] show ?thesis .
qed

theorem Parse_tree_in_input_witness:
  "\<exists>r. Parse E0 (Suc (Suc 0)) gLook ''x'' = Some (PRet (Some r) None) \<and>
        Tree r = Some lookTree \<and>
        Node ''C'' [] [] 0 1 0 0 [] None [] [] \<in> set (subnodes lookTree) \<and>
        Pos (Node ''C'' [] [] 0 1 0 0 [] None [] []) +
        Len (Node ''C'' [] [] 0 1 0 0 [] None [] []) \<le> int (length ''x'')"
proof -
  from gLook_parse obtain r where
    r: "Parse E0 (Suc (Suc 0)) gLook ''x'' = Some (PRet (Some r) None)"
    and t: "Tree r = Some lookTree"
    by blast
  have m: "Node ''C'' [] [] 0 1 0 0 [] None [] [] \<in> set (subnodes lookTree)"
    by (simp add: lookTree_def)
  from Parse_tree_in_input [OF r t m] r t m show ?thesis by blast
qed

text \<open>
  A rule application that returns leaves the node stack as it found it, but for the
  children of the top node: they are unchanged, or one node has been appended, which
  carries the rule's name, the position, the returned width and the returned error.
\<close>

theorem Result_apply_stack_balance:
  assumes wf: "wfState r" and p: "0 \<le> pos" "pos \<le> srclen r"
    and run: "Result_apply (ruleHandler E g n ru) ident r pos = Some (Ret w e r')"
  shows "\<exists>p ns. nodeStack r = p # ns \<and>
          (nodeStack r' = p # ns \<or>
           (\<exists>c. nodeStack r' = setChildren p (Children p @ [c]) # ns \<and>
                 Label c = ident \<and> Pos c = pos \<and> Len c = w \<and> Err c = e))"
proof -
  let ?h = "ruleHandler E g n ru"
  have sh: "sound ?h" by (rule ruleHandler_sound)
  from wfState_top [OF wf] obtain p0 ns0 where st: "nodeStack r = p0 # ns0" by blast
  have att: "nodeStack s' = p0 # ns0 \<or> nodeStack s' = setChildren p0 (Children p0 @ [c]) # ns0"
    if "Attach s c = Some s'" "nodeStack s = p0 # ns0" for s s' c
    using that by (auto simp: Attach_def split: if_splits)
  show ?thesis
  proof (cases "memo r (pos, ident)")
    case (Some c)
    with wf have c: "Pos c = pos" "Label c = ident" by (auto simp: wfState_def)
    show ?thesis
    proof (cases "Err c")
      case (Some err)
      with \<open>memo r (pos, ident) = Some c\<close> run st show ?thesis
        by (auto simp: Result_apply_def)
    next
      case None
      with \<open>memo r (pos, ident) = Some c\<close> run obtain
        a: "Attach r c = Some r'" and out: "w = Len c" "e = None"
        by (auto simp: Result_apply_def split: option.splits)
      from att [OF a st] c out None st show ?thesis by auto
    qed
  next
    case None
    let ?r1 = "r\<lparr>nodeStack := newNode ident pos # nodeStack r\<rparr>"
    from wf p have wf1: "wfState ?r1"
      by (auto simp: wfState_def srclen_def newNode_def)
    have len1: "srclen ?r1 = srclen r" by (simp add: srclen_def)
    from None run obtain w1 e1 r2 where y: "?h ?r1 pos = Some (Ret w1 e1 r2)"
      by (auto simp: Result_apply_def split: option.splits hres.splits)
    from soundD [OF sh wf1 p(1) _ y] p(2) len1 have
      r2: "wfState r2" "sameFrame ?r1 r2" by auto
    from wfState_top [OF r2(1)] obtain c ns where ns: "nodeStack r2 = c # ns" by blast
    from r2(2) ns have tl: "ns = nodeStack r" and c: "Pos c = pos" "Label c = ident"
      by (auto simp: sameFrame_def newNode_def)
    let ?c' = "setLenErr c w1 e1"
    let ?r3 = "r2\<lparr>nodeStack := ns, memo := (memo r2)((pos, ident) \<mapsto> ?c')\<rparr>"
    from None run y ns have a: "Attach ?r3 ?c' = Some r'" and out: "w = w1" "e = e1"
      by (auto simp: Result_apply_def Let_def split: option.splits)
    have c': "Pos ?c' = pos" "Label ?c' = ident" "Len ?c' = w1" "Err ?c' = e1"
      using c by (cases c; simp add: setLenErr_def)+
    from tl st have "nodeStack ?r3 = p0 # ns0" by simp
    from att [OF a this] c' out st show ?thesis by auto
  qed
qed

lemma negState_wf: "wfState negState"
  by (simp add: wfState_def negState_def newResult_def newNode_def srclen_def)

theorem Result_apply_stack_balance_witness:
  "wfState negState \<and>
   (\<exists>r'. Result_apply (ruleHandler E0 gNeg (Suc 0) ruleNegB) ''B'' negState 0
            = Some (Ret 0 (Some (ExpectingLiteral ''y'' ''x'')) r') \<and>
          length (nodeStack r') = length (nodeStack negState) \<and>
          map Label (nodeStack r') = map Label (nodeStack negState))"
proof -
  have "\<exists>r'. Result_apply (ruleHandler E0 gNeg (Suc 0) ruleNegB) ''B'' negState 0
            = Some (Ret 0 (Some (ExpectingLiteral ''y'' ''x'')) r')"
    by (simp add: handler_defs state_defs gNeg_def ruleNegB_def negState_def defaultOptions_def)
  then obtain r' where
    run: "Result_apply (ruleHandler E0 gNeg (Suc 0) ruleNegB) ''B'' negState 0
            = Some (Ret 0 (Some (ExpectingLiteral ''y'' ''x'')) r')"
    by blast
  have len: "srclen negState = 1" by (simp add: srclen_def negState_def newResult_def)
  from Result_apply_stack_balance [OF negState_wf _ _ run] len
  obtain p ns where "nodeStack negState = p # ns"
    and "nodeStack r' = p # ns \<or> (\<exists>c. nodeStack r' = setChildren p (Children p @ [c]) # ns)"
    by auto
  then have "length (nodeStack r') = length (nodeStack negState)"
    and "map Label (nodeStack r') = map Label (nodeStack negState)"
    by (cases p; auto simp: setChildren_def)+
  with run negState_wf show ?thesis by blast
qed

text \<open>
  \<open>Parse\<close> leaves the grammar as it found it: the result it returns refers to the
  grammar and the input it was called with.
\<close>

lemma Attach_frame: "Attach r n = Some r' \<Longrightarrow> Grammar r' = Grammar r \<and> Source r' = Source r"
  by (auto simp: Attach_def split: if_splits list.splits)

lemma Parse_keeps_grammar:
  assumes "Parse E n g input = Some (PRet (Some r) err)"
  shows "Grammar r = g \<and> Source r = input"
proof -
  from assms obtain topRule rest where names: "RuleNames g = topRule # rest"
    by (cases "RuleNames g") (auto simp: Parse_def)
  with assms obtain tr where tr: "Rules g topRule = Some tr"
    by (cases "Rules g topRule") (auto simp: Parse_def)
  with names assms obtain w e r0 where
    run: "Result_apply (ruleHandler E g n tr) (Ident tr) (newResult g input) 0 = Some (Ret w e r0)"
    and out: "afterApply g input w e r0 = PRet (Some r) err"
    by (auto simp: Parse_def split: option.splits hres.splits)
  from out have r: "r = r0"
    by (auto simp: afterApply_def split: if_splits option.splits)
  let ?r0 = "newResult g input"
  let ?r1 = "?r0\<lparr>nodeStack := newNode (Ident tr) 0 # nodeStack ?r0\<rparr>"
  have miss: "memo ?r0 (0, Ident tr) = None" by (simp add: newResult_def)
  have wf1: "wfState ?r1"
    by (simp add: wfState_def newResult_def newNode_def srclen_def)
  from miss run obtain w1 e1 r2 where y: "ruleHandler E g n tr ?r1 0 = Some (Ret w1 e1 r2)"
    by (auto simp: Result_apply_def split: option.splits hres.splits)
  from soundD [OF ruleHandler_sound wf1 _ _ y] have sf: "sameFrame ?r1 r2"
    by (simp add: srclen_def)
  then have g2: "Grammar r2 = g" "Source r2 = input"
    by (simp_all add: sameFrame_def newResult_def)
  from miss run y obtain n' r3 where a: "Attach r3 n' = Some r0"
    and r3: "Grammar r3 = Grammar r2" "Source r3 = Source r2"
    by (auto simp: Result_apply_def Let_def split: list.splits option.splits)
  from Attach_frame [OF a] r3 g2 r show ?thesis by simp
qed

section \<open>Trees of plain grammars\<close>

text \<open>
  The matchers of sequence, ordered choice, capture, star, plus and rule reference are
  tidy when their parts are: a failing alternative of a choice and the last, failing
  or empty, iteration of a loop are undone by the assignment of the saved children, a
  failing element of a sequence fails the sequence, and a node is attached at the
  position the matcher has reached. The matchers of predicates and of \<open>?\<close> are not
  tidy: they succeed after a call that may have left nodes behind.
\<close>

lemma tidyI:
  assumes "sound h"
    and "\<And>r pos w e r'. wfState r \<Longrightarrow> memoOrd r \<Longrightarrow> topOrd r pos \<Longrightarrow> 0 \<le> pos \<Longrightarrow>
          pos \<le> srclen r \<Longrightarrow> h r pos = Some (Ret w e r') \<Longrightarrow>
          wfState r' \<Longrightarrow> sameFrame r r' \<Longrightarrow> 0 \<le> w \<Longrightarrow> pos + w \<le> srclen r \<Longrightarrow>
          memoOrd r' \<and> (e = None \<longrightarrow> topOrd r' (pos + w))"
  shows "tidy h"
  unfolding tidy_def
proof (intro conjI allI impI)
  show "sound h" by fact
next
  fix r pos w e r'
  assume a: "wfState r \<and> memoOrd r \<and> topOrd r pos \<and> 0 \<le> pos \<and> pos \<le> srclen r \<and>
          h r pos = Some (Ret w e r')"
  with soundD [OF assms(1), of r pos w e r'] assms(2) [of r pos w e r']
  show "memoOrd r'" by blast
next
  fix r pos w e r'
  assume a: "wfState r \<and> memoOrd r \<and> topOrd r pos \<and> 0 \<le> pos \<and> pos \<le> srclen r \<and>
          h r pos = Some (Ret w e r')" and "e = None"
  with soundD [OF assms(1), of r pos w e r'] assms(2) [of r pos w e r']
  show "topOrd r' (pos + w)" by blast
qed

lemma tidyD:
  assumes "tidy h" "wfState r" "memoOrd r" "topOrd r pos" "0 \<le> pos" "pos \<le> srclen r"
    and "h r pos = Some (Ret w e r')"
  shows "wfState r' \<and> sameFrame r r' \<and> 0 \<le> w \<and> pos + w \<le> srclen r \<and>
         memoOrd r' \<and> (e = None \<longrightarrow> topOrd r' (pos + w))"
proof -
  from assms(1) have s: "sound h" by (simp add: tidy_def)
  from soundD [OF s assms(2,5,6,7)] assms show ?thesis
    unfolding tidy_def by blast
qed

lemma tidy_sound: "tidy h \<Longrightarrow> sound h"
  by (simp add: tidy_def)

lemma nodeInRange_sel:
  "nodeInRange L n =
     (0 \<le> Pos n \<and> 0 \<le> Len n \<and> Pos n + Len n \<le> L \<and>
      childrenInOrder L (Pos n) (Pos n + Len n) (Children n))"
  by (cases n) simp

lemma fresh_sel: "fresh n = (Content n = [] \<and> list_all fresh (Children n))"
  by (cases n) simp

lemma childrenInOrder_mono:
  "childrenInOrder L lo hi chs \<Longrightarrow> hi \<le> hi' \<Longrightarrow> childrenInOrder L lo hi' chs"
  by (induction chs arbitrary: lo) auto

lemma childrenInOrder_snoc:
  "childrenInOrder L lo hi chs \<Longrightarrow> lo \<le> hi \<Longrightarrow> hi \<le> Pos c \<Longrightarrow> nodeInRange L c \<Longrightarrow>
   Pos c + Len c \<le> hi' \<Longrightarrow> childrenInOrder L lo hi' (chs @ [c])"
proof (induction chs arbitrary: lo)
  case Nil
  then show ?case by simp
next
  case (Cons ch chs)
  from Cons.prems have "0 \<le> Len c" by (simp add: nodeInRange_sel)
  with Cons show ?case by auto
qed

lemma saveOrd_mono: "saveOrd r pos save \<Longrightarrow> pos \<le> pos' \<Longrightarrow> saveOrd r pos' save"
  by (auto simp: saveOrd_def intro: childrenInOrder_mono)

lemma topOrd_mono: "topOrd r pos \<Longrightarrow> pos \<le> pos' \<Longrightarrow> topOrd r pos'"
  unfolding topOrd_def by (rule saveOrd_mono)

lemma saveOrd_frame: "saveOrd r pos save \<Longrightarrow> sameFrame r r' \<Longrightarrow> saveOrd r' pos save"
  by (simp add: saveOrd_def sameFrame_def srclen_def)

lemma memoOrd_cong: "memo r' = memo r \<Longrightarrow> Source r' = Source r \<Longrightarrow> memoOrd r' = memoOrd r"
  by (simp add: memoOrd_def srclen_def)

lemma setTopChildren_ord:
  assumes "setTopChildren r save = Some r'" and "saveOrd r pos save"
  shows "topOrd r' pos" and "memoOrd r' = memoOrd r"
  using assms
  by (auto simp: setTopChildren_def topOrd_def saveOrd_def memoOrd_def srclen_def setChildren_def
      split: list.splits; (rename_tac n ns, case_tac n, simp))+

lemma literal_same:
  "makeLiteralHandler l r pos = Some (Ret w e r') \<Longrightarrow> r' = r"
  by (auto simp: makeLiteralHandler_def split: if_splits option.splits)

lemma literal_tidy: "tidy (makeLiteralHandler l)"
proof (rule tidyI [OF literal_sound])
  fix r pos w e r'
  assume "memoOrd r" "topOrd r pos" "0 \<le> w"
    and run: "makeLiteralHandler l r pos = Some (Ret w e r')"
  with literal_same [OF run] show "memoOrd r' \<and> (e = None \<longrightarrow> topOrd r' (pos + w))"
    by (auto intro: topOrd_mono)
qed

lemma charclass_same:
  "makeCharClassHandler E cc r pos = Some (Ret w e r') \<Longrightarrow> r' = r"
  by (auto simp: makeCharClassHandler_def Let_def split: if_splits option.splits prod.splits)

lemma charclass_tidy: "tidy (makeCharClassHandler E cc)"
proof (rule tidyI [OF charclass_sound])
  fix r pos w e r'
  assume "memoOrd r" "topOrd r pos" "0 \<le> w"
    and run: "makeCharClassHandler E cc r pos = Some (Ret w e r')"
  with charclass_same [OF run] show "memoOrd r' \<and> (e = None \<longrightarrow> topOrd r' (pos + w))"
    by (auto intro: topOrd_mono)
qed

lemma groupLoop_tidy:
  assumes "list_all tidy hs"
  shows "wfState r \<Longrightarrow> memoOrd r \<Longrightarrow> topOrd r (pos + ww) \<Longrightarrow> 0 \<le> pos \<Longrightarrow> 0 \<le> ww \<Longrightarrow>
         pos + ww \<le> srclen r \<Longrightarrow> groupLoop hs pos ww r = Some (Ret w e r') \<Longrightarrow>
         memoOrd r' \<and> (e = None \<longrightarrow> topOrd r' (pos + w))"
  using assms
proof (induction hs arbitrary: ww r)
  case Nil
  then show ?case by auto
next
  case (Cons h hs)
  from Cons.prems have th: "tidy h" and ths: "list_all tidy hs" by auto
  from Cons.prems(7) obtain w1 e1 r1 where y: "h r (pos + ww) = Some (Ret w1 e1 r1)"
    by (auto split: option.splits hres.splits)
  from tidyD [OF th Cons.prems(1,2,3) _ Cons.prems(6) y] Cons.prems have
    r1: "wfState r1" "sameFrame r r1" "0 \<le> w1" "pos + ww + w1 \<le> srclen r" "memoOrd r1"
      "e1 = None \<longrightarrow> topOrd r1 (pos + ww + w1)"
    by auto
  show ?case
  proof (cases e1)
    case (Some err)
    with r1 y Cons.prems show ?thesis by auto
  next
    case None
    with y Cons.prems have run: "groupLoop hs pos (ww + w1) r1 = Some (Ret w e r')" by simp
    from None r1 have t1: "topOrd r1 (pos + (ww + w1))" by (simp add: add.assoc)
    from Cons.IH [OF r1(1) r1(5) t1 Cons.prems(4) _ _ run ths] r1 Cons.prems
      sameFrame_srclen [OF r1(2)]
    show ?thesis by (auto simp: add.assoc)
  qed
qed

lemma groupHandler_tidy:
  assumes "list_all tidy hs"
  shows "tidy (groupHandler hs)"
proof (rule tidyI)
  from assms have "list_all sound hs" by (auto simp: list_all_iff tidy_sound)
  then show "sound (groupHandler hs)" by (rule groupHandler_sound)
next
  fix r pos w e r'
  assume "wfState r" "memoOrd r" "topOrd r pos" "0 \<le> pos" "pos \<le> srclen r"
    and "groupHandler hs r pos = Some (Ret w e r')"
  with groupLoop_tidy [OF assms, of r pos 0 w e r']
  show "memoOrd r' \<and> (e = None \<longrightarrow> topOrd r' (pos + w))"
    by (simp add: groupHandler_def)
qed

lemma choiceLoop_tidy:
  assumes "list_all (\<lambda>kh. tidy (snd kh)) hs"
  shows "wfState r \<Longrightarrow> memoOrd r \<Longrightarrow> saveOrd r pos save \<Longrightarrow> 0 \<le> pos \<Longrightarrow> pos \<le> srclen r \<Longrightarrow>
         list_all (bounded (srclen r)) save \<Longrightarrow>
         choiceLoop rhs hs save pos errMap w0 r = Some (Ret w e r') \<Longrightarrow>
         memoOrd r' \<and> (e = None \<longrightarrow> topOrd r' (pos + w))"
  using assms
proof (induction hs arbitrary: errMap w0 r)
  case Nil
  then show ?case by auto
next
  case (Cons kh hs)
  obtain k h where kh: "kh = (k, h)" by (cases kh)
  with Cons.prems have th: "tidy h" and ths: "list_all (\<lambda>kh. tidy (snd kh)) hs" by auto
  from setTopChildren_wf [OF Cons.prems(1) Cons.prems(6)] obtain r1 where
    r1: "setTopChildren r save = Some r1" "wfState r1" "sameFrame r r1" by blast
  note len1 = sameFrame_srclen [OF r1(3)]
  note o1 = setTopChildren_ord [OF r1(1) Cons.prems(3)]
  from Cons.prems(7) kh r1 obtain w1 e1 r2 where y: "h r1 pos = Some (Ret w1 e1 r2)"
    by (auto split: option.splits hres.splits)
  from tidyD [OF th r1(2) _ o1(1) Cons.prems(4) _ y] o1(2) Cons.prems(2,5) len1 have
    r2: "wfState r2" "sameFrame r1 r2" "0 \<le> w1" "pos + w1 \<le> srclen r" "memoOrd r2"
      "e1 = None \<longrightarrow> topOrd r2 (pos + w1)"
    by auto
  note len2 = sameFrame_srclen [OF r2(2)]
  show ?case
  proof (cases e1)
    case None
    with r2 r1 y kh Cons.prems(7) show ?thesis by auto
  next
    case (Some err)
    with r1 y kh Cons.prems(7)
    have run: "choiceLoop rhs hs save pos (AList.update k err errMap) w1 r2 = Some (Ret w e r')"
      by simp
    from saveOrd_frame [OF saveOrd_frame [OF Cons.prems(3) r1(3)] r2(2)]
    have s2: "saveOrd r2 pos save" .
    from Cons.IH [OF r2(1) r2(5) s2 Cons.prems(4) _ _ run ths] Cons.prems(5,6) len1 len2
    show ?thesis by auto
  qed
qed

lemma choiceHandler_tidy:
  assumes "list_all (\<lambda>kh. tidy (snd kh)) khs"
  shows "tidy (choiceHandler rhs khs)"
proof (rule tidyI)
  from assms have "list_all (\<lambda>kh. sound (snd kh)) khs" by (auto simp: list_all_iff tidy_sound)
  then show "sound (choiceHandler rhs khs)" by (rule choiceHandler_sound)
next
  fix r pos w e r'
  assume wf: "wfState r" and mo: "memoOrd r" and tp: "topOrd r pos"
    and p: "0 \<le> pos" "pos \<le> srclen r"
    and run: "choiceHandler rhs khs r pos = Some (Ret w e r')"
  from wfState_top [OF wf] obtain tn ns where ns: "nodeStack r = tn # ns"
    and tn: "TopNode r = Some tn"
    and save: "list_all (bounded (srclen r)) (Children tn)" by blast
  from run tn obtain k h rest where khs: "khs = (k, h) # rest"
    by (cases khs) (auto simp: choiceHandler_def)
  with assms have th: "tidy h" and trest: "list_all (\<lambda>kh. tidy (snd kh)) rest" by auto
  from run tn khs obtain w1 e1 r1 where y: "h r pos = Some (Ret w1 e1 r1)"
    by (auto simp: choiceHandler_def split: option.splits hres.splits)
  from tidyD [OF th wf mo tp p y] have
    r1: "wfState r1" "sameFrame r r1" "0 \<le> w1" "pos + w1 \<le> srclen r" "memoOrd r1"
      "e1 = None \<longrightarrow> topOrd r1 (pos + w1)"
    by auto
  note len1 = sameFrame_srclen [OF r1(2)]
  show "memoOrd r' \<and> (e = None \<longrightarrow> topOrd r' (pos + w))"
  proof (cases e1)
    case None
    with r1 y run tn khs show ?thesis by (auto simp: choiceHandler_def)
  next
    case (Some err)
    with y run tn khs
    have loop: "choiceLoop rhs rest (Children tn) pos [(k, err)] w1 r1 = Some (Ret w e r')"
      by (simp add: choiceHandler_def)
    from tp ns have "saveOrd r pos (Children tn)" by (simp add: topOrd_def)
    from saveOrd_frame [OF this r1(2)] have s1: "saveOrd r1 pos (Children tn)" .
    from choiceLoop_tidy [OF trest r1(1) r1(5) s1 p(1) _ _ loop] p(2) save len1
    show ?thesis by auto
  qed
qed

lemma capture_tidy:
  assumes "tidy h"
  shows "tidy (makeCaptureHandler h)"
proof (rule tidyI [OF capture_sound [OF tidy_sound [OF assms]]])
  fix r pos w e r'
  assume wf: "wfState r" and mo: "memoOrd r" and tp: "topOrd r pos"
    and p: "0 \<le> pos" "pos \<le> srclen r"
    and run: "makeCaptureHandler h r pos = Some (Ret w e r')"
  then obtain w1 e1 r1 where y: "h r pos = Some (Ret w1 e1 r1)"
    by (auto simp: makeCaptureHandler_def split: option.splits hres.splits)
  from tidyD [OF assms wf mo tp p y] have
    r1: "wfState r1" "memoOrd r1" "e1 = None \<longrightarrow> topOrd r1 (pos + w1)" by auto
  show "memoOrd r' \<and> (e = None \<longrightarrow> topOrd r' (pos + w))"
  proof (cases e1)
    case (Some err)
    with run y r1 show ?thesis by (auto simp: makeCaptureHandler_def)
  next
    case None
    from wfState_top [OF r1(1)] obtain tn ns where ns: "nodeStack r1 = tn # ns" by blast
    from None run y ns obtain t where
      out: "w = w1" "r' = r1\<lparr>nodeStack := setText tn t # ns\<rparr>"
      by (auto simp: makeCaptureHandler_def split: option.splits)
    from None r1 ns have "topOrd (r1\<lparr>nodeStack := setText tn t # ns\<rparr>) (pos + w1)"
      by (cases tn) (simp add: topOrd_def saveOrd_def srclen_def setText_def)
    moreover from r1(2) have "memoOrd (r1\<lparr>nodeStack := setText tn t # ns\<rparr>)"
      by (simp add: memoOrd_def srclen_def)
    ultimately show ?thesis using out by simp
  qed
qed

lemma repeatLoop_tidy_all:
  assumes run: "repeatLoop h pos ww save r = Some y"
  shows "tidy h \<longrightarrow> wfState r \<longrightarrow> memoOrd r \<longrightarrow> topOrd r (pos + ww) \<longrightarrow>
         save = Children (hd (nodeStack r)) \<longrightarrow> 0 \<le> pos \<longrightarrow> 0 \<le> ww \<longrightarrow> pos + ww \<le> srclen r \<longrightarrow>
         (\<forall>w e r'. y = Ret w e r' \<longrightarrow> memoOrd r' \<and> topOrd r' (pos + w))"
proof (rule repeatLoop.raw_induct
    [where P = "\<lambda>h pos ww save r y.
       tidy h \<longrightarrow> wfState r \<longrightarrow> memoOrd r \<longrightarrow> topOrd r (pos + ww) \<longrightarrow>
       save = Children (hd (nodeStack r)) \<longrightarrow> 0 \<le> pos \<longrightarrow> 0 \<le> ww \<longrightarrow> pos + ww \<le> srclen r \<longrightarrow>
       (\<forall>w e r'. y = Ret w e r' \<longrightarrow> memoOrd r' \<and> topOrd r' (pos + w))",
      OF _ run])
  fix rl :: "handler \<Rightarrow> int \<Rightarrow> int \<Rightarrow> Node list \<Rightarrow> Result \<Rightarrow> hres option"
    and h pos ww save r y
  assume IH: "\<And>h pos ww save r y. rl h pos ww save r = Some y \<Longrightarrow>
       tidy h \<longrightarrow> wfState r \<longrightarrow> memoOrd r \<longrightarrow> topOrd r (pos + ww) \<longrightarrow>
       save = Children (hd (nodeStack r)) \<longrightarrow> 0 \<le> pos \<longrightarrow> 0 \<le> ww \<longrightarrow> pos + ww \<le> srclen r \<longrightarrow>
       (\<forall>w e r'. y = Ret w e r' \<longrightarrow> memoOrd r' \<and> topOrd r' (pos + w))"
    and step: "(case h r (pos + ww) of
                  None \<Rightarrow> None
                | Some Exit \<Rightarrow> Some Exit
                | Some (Ret w err r1) \<Rightarrow>
                    if err = None \<and> 0 < w
                    then (case TopNode r1 of
                            None \<Rightarrow> Some Exit
                          | Some tn \<Rightarrow> rl h pos (ww + w) (Children tn) r1)
                    else (case setTopChildren r1 save of
                            None \<Rightarrow> Some Exit
                          | Some r2 \<Rightarrow> Some (Ret ww err r2))) = Some y"
  show "tidy h \<longrightarrow> wfState r \<longrightarrow> memoOrd r \<longrightarrow> topOrd r (pos + ww) \<longrightarrow>
       save = Children (hd (nodeStack r)) \<longrightarrow> 0 \<le> pos \<longrightarrow> 0 \<le> ww \<longrightarrow> pos + ww \<le> srclen r \<longrightarrow>
       (\<forall>w e r'. y = Ret w e r' \<longrightarrow> memoOrd r' \<and> topOrd r' (pos + w))"
  proof (intro impI allI)
    fix w e r'
    assume th: "tidy h" and wf: "wfState r" and mo: "memoOrd r" and tp: "topOrd r (pos + ww)"
      and sv: "save = Children (hd (nodeStack r))"
      and p: "0 \<le> pos" "0 \<le> ww" "pos + ww \<le> srclen r" and y: "y = Ret w e r'"
    from step y obtain w1 e1 r1 where run1: "h r (pos + ww) = Some (Ret w1 e1 r1)"
      by (auto split: option.splits hres.splits)
    from tidyD [OF th wf mo tp _ p(3) run1] p have
      r1: "wfState r1" "sameFrame r r1" "0 \<le> w1" "pos + ww + w1 \<le> srclen r" "memoOrd r1"
        "e1 = None \<longrightarrow> topOrd r1 (pos + ww + w1)"
      by auto
    note len1 = sameFrame_srclen [OF r1(2)]
    show "memoOrd r' \<and> topOrd r' (pos + w)"
    proof (cases "e1 = None \<and> 0 < w1")
      case True
      from wfState_top [OF r1(1)] obtain tn ns where ns: "nodeStack r1 = tn # ns"
        and tn: "TopNode r1 = Some tn" by blast
      from True run1 tn step y have "rl h pos (ww + w1) (Children tn) r1 = Some (Ret w e r')"
        by simp
      from IH [OF this] th r1 p ns len1 True
      show ?thesis by (auto simp: add.assoc)
    next
      case False
      from wfState_top [OF wf] obtain tn0 where "list_all (bounded (srclen r)) (Children tn0)"
        and "nodeStack r = tn0 # tl (nodeStack r)" by auto
      with sv len1 have "list_all (bounded (srclen r1)) save"
        by (metis list.sel(1))
      from setTopChildren_wf [OF r1(1) this] obtain r2 where
        r2: "setTopChildren r1 save = Some r2" by blast
      with False run1 step y have out: "w = ww" "r' = r2" by auto
      from tp sv have "saveOrd r (pos + ww) save" by (simp add: topOrd_def)
      from setTopChildren_ord [OF r2 saveOrd_frame [OF this r1(2)]] r1(5) out
      show ?thesis by simp
    qed
  qed
qed

lemma repeatLoop_tidy:
  "repeatLoop h pos ww save r = Some (Ret w e r') \<Longrightarrow> tidy h \<Longrightarrow> wfState r \<Longrightarrow> memoOrd r \<Longrightarrow>
   topOrd r (pos + ww) \<Longrightarrow> save = Children (hd (nodeStack r)) \<Longrightarrow> 0 \<le> pos \<Longrightarrow> 0 \<le> ww \<Longrightarrow>
   pos + ww \<le> srclen r \<Longrightarrow> memoOrd r' \<and> topOrd r' (pos + w)"
  using repeatLoop_tidy_all by blast

lemma star_tidy:
  assumes "tidy h"
  shows "tidy (makeStarHandler h)"
proof (rule tidyI [OF star_sound [OF tidy_sound [OF assms]]])
  fix r pos w e r'
  assume wf: "wfState r" and mo: "memoOrd r" and tp: "topOrd r pos"
    and p: "0 \<le> pos" "pos \<le> srclen r"
    and run: "makeStarHandler h r pos = Some (Ret w e r')"
  from wfState_top [OF wf] obtain tn ns where ns: "nodeStack r = tn # ns"
    and tn: "TopNode r = Some tn" by blast
  from run tn obtain e2 r2 where loop: "repeatLoop h pos 0 (Children tn) r = Some (Ret w e2 r2)"
    and out: "r' = (if w = 0 \<and> e2 \<noteq> None then r2\<lparr>fyiError := e2\<rparr> else r2)"
    by (auto simp: makeStarHandler_def split: option.splits hres.splits)
  from repeatLoop_tidy [OF loop assms wf mo _ _ p(1)] tp ns p
  have "memoOrd r2" "topOrd r2 (pos + w)" by auto
  with out show "memoOrd r' \<and> (e = None \<longrightarrow> topOrd r' (pos + w))"
    by (auto simp: memoOrd_def topOrd_def saveOrd_def srclen_def)
qed

lemma plus_tidy:
  assumes "tidy h"
  shows "tidy (makePlusHandler h)"
proof (rule tidyI [OF plus_sound [OF tidy_sound [OF assms]]])
  fix r pos w e r'
  assume wf: "wfState r" and mo: "memoOrd r" and tp: "topOrd r pos"
    and p: "0 \<le> pos" "pos \<le> srclen r"
    and run: "makePlusHandler h r pos = Some (Ret w e r')"
  then obtain w1 e1 r1 where y: "h r pos = Some (Ret w1 e1 r1)"
    by (auto simp: makePlusHandler_def split: option.splits hres.splits)
  from tidyD [OF assms wf mo tp p y] have
    r1: "wfState r1" "sameFrame r r1" "0 \<le> w1" "pos + w1 \<le> srclen r" "memoOrd r1"
      "e1 = None \<longrightarrow> topOrd r1 (pos + w1)" by auto
  note len1 = sameFrame_srclen [OF r1(2)]
  show "memoOrd r' \<and> (e = None \<longrightarrow> topOrd r' (pos + w))"
  proof (cases e1)
    case (Some err)
    with run y r1 show ?thesis by (auto simp: makePlusHandler_def)
  next
    case None
    from wfState_top [OF r1(1)] obtain tn ns where ns: "nodeStack r1 = tn # ns"
      and tn: "TopNode r1 = Some tn" by blast
    from None run y tn obtain e2 where
      loop: "repeatLoop h pos w1 (Children tn) r1 = Some (Ret w e2 r')"
      by (auto simp: makePlusHandler_def split: option.splits hres.splits)
    from repeatLoop_tidy [OF loop assms r1(1) r1(5) _ _ p(1) r1(3)] None r1 ns len1
    show ?thesis by auto
  qed
qed

lemma Attach_ord:
  assumes wf: "wfState r" and mo: "memoOrd r" and tp: "topOrd r pos"
    and n: "nodeInRange (srclen r) n" "fresh n" "Pos n = pos"
    and a: "Attach r n = Some r'"
  shows "memoOrd r' \<and> topOrd r' (pos + Len n)"
proof -
  from wfState_top [OF wf] obtain tn ns where ns: "nodeStack r = tn # ns" by blast
  from n have len: "0 \<le> Len n" by (simp add: nodeInRange_sel)
  from a ns have "r' = r \<or> r' = r\<lparr>nodeStack := setChildren tn (Children tn @ [n]) # ns\<rparr>"
    by (auto simp: Attach_def split: if_splits)
  then show ?thesis
  proof
    assume "r' = r"
    with mo tp len show ?thesis by (auto intro: topOrd_mono)
  next
    assume r': "r' = r\<lparr>nodeStack := setChildren tn (Children tn @ [n]) # ns\<rparr>"
    from tp ns have o: "Pos tn \<le> pos" "childrenInOrder (srclen r) (Pos tn) pos (Children tn)"
      "list_all fresh (Children tn)" by (auto simp: topOrd_def saveOrd_def)
    from childrenInOrder_snoc [OF o(2) o(1) _ n(1), of "pos + Len n"] n(3)
    have "childrenInOrder (srclen r) (Pos tn) (pos + Len n) (Children tn @ [n])" by simp
    with o n len r' have "topOrd r' (pos + Len n)"
      by (cases tn) (simp add: topOrd_def saveOrd_def srclen_def setChildren_def)
    moreover from mo r' have "memoOrd r'" by (simp add: memoOrd_def srclen_def)
    ultimately show ?thesis by simp
  qed
qed

lemma popped_node_ordered:
  assumes tp: "topOrd r2 (pos + w)" and ns: "nodeStack r2 = n # ns"
    and n: "Pos n = pos" "Content n = []" and p: "0 \<le> pos" "0 \<le> w" "pos + w \<le> srclen r2"
  shows "nodeInRange (srclen r2) (setLenErr n w e) \<and> fresh (setLenErr n w e)"
  using assms by (cases n) (simp add: topOrd_def saveOrd_def setLenErr_def)

lemma apply_tidy:
  assumes "tidy h"
  shows "tidy (Result_apply h ident)"
proof (rule tidyI [OF apply_sound [OF tidy_sound [OF assms]]])
  fix r pos w e r'
  assume wf: "wfState r" and mo: "memoOrd r" and tp: "topOrd r pos"
    and p: "0 \<le> pos" "pos \<le> srclen r"
    and run: "Result_apply h ident r pos = Some (Ret w e r')"
  show "memoOrd r' \<and> (e = None \<longrightarrow> topOrd r' (pos + w))"
  proof (cases "memo r (pos, ident)")
    case (Some n)
    with wf have pn: "Pos n = pos" by (auto simp: wfState_def)
    show ?thesis
    proof (cases "Err n")
      case (Some err)
      with \<open>memo r (pos, ident) = Some n\<close> run mo show ?thesis
        by (auto simp: Result_apply_def)
    next
      case None
      with \<open>memo r (pos, ident) = Some n\<close> mo have g: "nodeInRange (srclen r) n" "fresh n"
        by (auto simp: memoOrd_def)
      from None \<open>memo r (pos, ident) = Some n\<close> run have
        a: "Attach r n = Some r'" and out: "w = Len n"
        by (auto simp: Result_apply_def split: option.splits)
      from Attach_ord [OF wf mo tp g pn a] out show ?thesis by simp
    qed
  next
    case None
    let ?r1 = "r\<lparr>nodeStack := newNode ident pos # nodeStack r\<rparr>"
    from wf p have wf1: "wfState ?r1"
      by (auto simp: wfState_def srclen_def newNode_def)
    have len1: "srclen ?r1 = srclen r" by (simp add: srclen_def)
    from mo have mo1: "memoOrd ?r1" by (simp add: memoOrd_def srclen_def)
    have tp1: "topOrd ?r1 pos" by (simp add: topOrd_def saveOrd_def newNode_def)
    from None run obtain w1 e1 r2 where y: "h ?r1 pos = Some (Ret w1 e1 r2)"
      by (auto simp: Result_apply_def split: option.splits hres.splits)
    from tidyD [OF assms wf1 mo1 tp1 p(1) _ y] p(2) len1 have
      r2: "wfState r2" "sameFrame ?r1 r2" "0 \<le> w1" "pos + w1 \<le> srclen r" "memoOrd r2"
        "e1 = None \<longrightarrow> topOrd r2 (pos + w1)" by auto
    from sameFrame_srclen [OF r2(2)] len1 have len2: "srclen r2 = srclen r" by simp
    from wfState_top [OF r2(1)] obtain n ns where ns: "nodeStack r2 = n # ns"
      and bn: "bounded (srclen r2) n" by blast
    from r2(2) ns have tl: "ns = nodeStack r" and posn: "Pos n = pos" and labn: "Label n = ident"
      and conn: "Content n = []"
      by (auto simp: sameFrame_def newNode_def)
    let ?n' = "setLenErr n w1 e1"
    let ?r3 = "r2\<lparr>nodeStack := ns, memo := (memo r2)((pos, ident) \<mapsto> ?n')\<rparr>"
    from bounded_setLenErr [OF bn r2(3)] posn r2(4) len2 have bn': "bounded (srclen r2) ?n'"
      by simp
    have sel': "Pos ?n' = pos" "Label ?n' = ident" "Err ?n' = e1" "Len ?n' = w1"
      using posn labn by (cases n; simp add: setLenErr_def)+
    from r2(1) ns tl wf bn' sel' len2 have wf3: "wfState ?r3"
      by (auto simp: wfState_def srclen_def)
    have len3: "srclen ?r3 = srclen r" using len2 by (simp add: srclen_def)
    from Attach_wf [OF wf3] bn' len3 len2 obtain r4 where
      r4: "Attach ?r3 ?n' = Some r4" "memo r4 = memo ?r3" "sameFrame ?r3 r4" by auto
    from None run y ns r4 have out: "w = w1" "e = e1" "r' = r4"
      by (auto simp: Result_apply_def Let_def)
    from tp tl have tp3: "topOrd ?r3 pos" by (simp add: topOrd_def saveOrd_def srclen_def len2 [unfolded srclen_def])
    show ?thesis
    proof (cases e1)
      case None
      with r2 have "topOrd r2 (pos + w1)" by simp
      from popped_node_ordered [OF this ns posn conn p(1) r2(3)] r2(4) len2
      have g: "nodeInRange (srclen ?r3) ?n'" "fresh ?n'" by (simp_all add: len3)
      from r2(5) g len2 len3 have mo3: "memoOrd ?r3"
        by (auto simp: memoOrd_def srclen_def)
      from Attach_ord [OF wf3 mo3 tp3 g sel'(1) r4(1)] out sel' show ?thesis by simp
    next
      case (Some err)
      with r2(5) sel' len2 have "memoOrd ?r3"
        by (auto simp: memoOrd_def srclen_def)
      with r4 out Some show ?thesis
        by (auto simp: memoOrd_def srclen_def sameFrame_def)
    qed
  qed
qed

lemma collect_tidy:
  "list_all ctidy cs \<Longrightarrow> collect cs = Inr hs \<Longrightarrow> list_all tidy hs"
proof (induction cs arbitrary: hs)
  case Nil
  then show ?case by simp
next
  case (Cons c cs)
  then show ?case
    by (cases c; cases "collect cs") (auto simp: ctidy_def)
qed

lemma groupOf_tidy:
  assumes "list_all ctidy cs"
  shows "ctidy (groupOf cs)"
proof -
  have other: "ctidy (case collect cs of Inl e \<Rightarrow> Inl e | Inr hh \<Rightarrow> Inr (groupHandler hh))"
    using collect_tidy [OF assms]
    by (cases "collect cs") (auto simp: ctidy_def intro: groupHandler_tidy)
  from assms other show ?thesis
    by (cases cs; cases "tl cs") (auto simp: groupOf_def)
qed

lemma zip_tidy: "list_all tidy hs \<Longrightarrow> list_all (\<lambda>kh. tidy (snd kh)) (zip ks hs)"
  by (induction ks hs rule: list_induct2') auto

lemma rhsOf_tidy:
  assumes "list_all ctidy cs"
  shows "ctidy (rhsOf E choices cs)"
proof -
  have other: "ctidy (case collect cs of Inl e \<Rightarrow> Inl e
       | Inr hh \<Rightarrow> Inr (choiceHandler choices (zip (map (groupToString E) choices) hh)))"
    using collect_tidy [OF assms]
    by (cases "collect cs") (auto simp: ctidy_def intro: choiceHandler_tidy zip_tidy)
  from assms other show ?thesis
    by (cases cs; cases "tl cs") (auto simp: rhsOf_def)
qed

lemma makeSpecialHandler_tidy: "tidy h \<Longrightarrow> c \<noteq> 63 \<Longrightarrow> ctidy (makeSpecialHandler h c)"
  by (auto simp: makeSpecialHandler_def ctidy_def intro: star_tidy plus_tidy)

lemma makeTermHandler_tidy:
  assumes "\<And>ru. ru \<in> ran (Rules g) \<Longrightarrow> tidy (rh ru)"
  shows "plain t \<Longrightarrow> ctidy (makeTermHandler E g rh t)"
proof (induction t)
  case (TParens rhs)
  then have "list_all ctidy (map (\<lambda>ts. groupOf (map (makeTermHandler E g rh) ts)) rhs)"
    by (auto simp: list_all_iff intro!: groupOf_tidy)
  then show ?case by (auto intro: rhsOf_tidy)
next
  case (TNegPred t)
  then show ?case by simp
next
  case (TPred t)
  then show ?case by simp
next
  case (TSpecial t c)
  show ?case
  proof (cases "makeTermHandler E g rh t")
    case (Inl e)
    then show ?thesis by (simp add: ctidy_def)
  next
    case (Inr h)
    with TSpecial have "tidy h" "c \<noteq> 63" by (simp_all add: ctidy_def)
    from makeSpecialHandler_tidy [OF this] Inr show ?thesis by simp
  qed
next
  case (TCapture rhs)
  then have "list_all ctidy (map (\<lambda>ts. groupOf (map (makeTermHandler E g rh) ts)) rhs)"
    by (auto simp: list_all_iff intro!: groupOf_tidy)
  from rhsOf_tidy [OF this, of E rhs] show ?case
    by (cases "rhsOf E rhs (map (\<lambda>ts. groupOf (map (makeTermHandler E g rh) ts)) rhs)")
      (auto simp: ctidy_def intro: capture_tidy)
next
  case (TCharClass cc)
  then show ?case by (simp add: ctidy_def charclass_tidy)
next
  case (TLiteral l)
  then show ?case by (simp add: ctidy_def literal_tidy)
next
  case (TIdent i)
  then show ?case using assms
    by (auto simp: ctidy_def makeRuleHandler_def ran_def intro!: apply_tidy split: option.splits)
qed

lemma makeRHSHandler_tidy:
  assumes "\<And>ru. ru \<in> ran (Rules g) \<Longrightarrow> tidy (rh ru)"
    and "list_all (list_all plain) rhs"
  shows "ctidy (makeRHSHandler E g rh rhs)"
  unfolding makeRHSHandler_def makeGroupHandler_def
  using assms(2)
  by (auto simp: list_all_iff intro!: rhsOf_tidy groupOf_tidy makeTermHandler_tidy assms(1))

lemma ruleHandler_tidy:
  assumes "plainGrammar g"
  shows "ru \<in> ran (Rules g) \<Longrightarrow> tidy (ruleHandler E g n ru)"
proof (induction n arbitrary: ru)
  case 0
  show ?case by (rule tidyI [OF ruleHandler_sound]) simp
next
  case (Suc n)
  from assms Suc.prems have pl: "list_all (list_all plain) (RHS ru)"
    by (auto simp: plainGrammar_def)
  from makeRHSHandler_tidy [of g "ruleHandler E g n" "RHS ru" E, OF Suc.IH pl]
  have c: "ctidy (makeRHSHandler E g (ruleHandler E g n) (RHS ru))" .
  show ?case
  proof (cases "makeRHSHandler E g (ruleHandler E g n) (RHS ru)")
    case (Inl e)
    show ?thesis by (rule tidyI [OF ruleHandler_sound]) (simp add: Inl)
  next
    case (Inr h)
    with c show ?thesis by (simp add: ctidy_def)
  qed
qed

lemma top_apply_ordered:
  assumes th: "tidy h"
    and run: "Result_apply h ident (newResult g input) 0 = Some (Ret w None r)"
  shows "\<exists>t. Tree r = Some t \<and> nodeInRange (int (length input)) t \<and> fresh t \<and>
             Pos t = 0 \<and> Len t = w \<and> Source r = input"
proof -
  let ?r0 = "newResult g input"
  let ?r1 = "?r0\<lparr>nodeStack := newNode ident 0 # nodeStack ?r0\<rparr>"
  have miss: "memo ?r0 (0, ident) = None" by (simp add: newResult_def)
  have wf1: "wfState ?r1"
    by (simp add: wfState_def newResult_def newNode_def srclen_def)
  have len1: "srclen ?r1 = int (length input)" by (simp add: srclen_def newResult_def)
  have mo1: "memoOrd ?r1" by (simp add: memoOrd_def newResult_def)
  have tp1: "topOrd ?r1 0" by (simp add: topOrd_def saveOrd_def newNode_def)
  from miss run obtain w1 e1 r2 where y: "h ?r1 0 = Some (Ret w1 e1 r2)"
    by (auto simp: Result_apply_def split: option.splits hres.splits)
  from tidyD [OF th wf1 mo1 tp1 _ _ y] len1 have
    r2: "wfState r2" "sameFrame ?r1 r2" "0 \<le> w1" "w1 \<le> int (length input)"
      "e1 = None \<longrightarrow> topOrd r2 (0 + w1)" by auto
  from sameFrame_srclen [OF r2(2)] len1 have len2: "srclen r2 = int (length input)" by simp
  from wfState_top [OF r2(1)] obtain n ns where ns: "nodeStack r2 = n # ns" by blast
  from r2(2) ns have tl: "ns = []" and posn: "Pos n = 0" and tr: "Tree r2 = None"
    and conn: "Content n = []" and src: "Source r2 = input"
    by (auto simp: sameFrame_def newNode_def newResult_def)
  from miss run y ns tl tr have out: "Tree r = Some (setLenErr n w1 e1)" "w = w1" "e1 = None"
    "Source r = Source r2"
    by (auto simp: Result_apply_def Let_def Attach_def split: if_splits)
  with r2 have "topOrd r2 (0 + w1)" by simp
  from popped_node_ordered [OF this ns posn conn _ r2(3), of e1] r2(4) len2
  have "nodeInRange (int (length input)) (setLenErr n w1 e1)" "fresh (setLenErr n w1 e1)"
    by simp_all
  moreover have "Pos (setLenErr n w1 e1) = 0" "Len (setLenErr n w1 e1) = w1"
    using posn by (cases n; simp add: setLenErr_def)+
  ultimately show ?thesis using out src by simp
qed

lemma Parse_success:
  assumes "Parse E n g input = Some (PRet (Some r) None)"
  shows "\<exists>topRule rest tr w.
           RuleNames g = topRule # rest \<and> Rules g topRule = Some tr \<and>
           Result_apply (ruleHandler E g n tr) (Ident tr) (newResult g input) 0
             = Some (Ret w None r) \<and>
           (w = int (length input) \<or> IgnoreUnconsumedTail (ParserOptions g))"
proof -
  from assms obtain topRule rest where names: "RuleNames g = topRule # rest"
    by (cases "RuleNames g") (auto simp: Parse_def)
  with assms obtain tr where tr: "Rules g topRule = Some tr"
    by (cases "Rules g topRule") (auto simp: Parse_def)
  with names assms obtain w e r0 where
    run: "Result_apply (ruleHandler E g n tr) (Ident tr) (newResult g input) 0 = Some (Ret w e r0)"
    and out: "afterApply g input w e r0 = PRet (Some r) None"
    by (auto simp: Parse_def split: option.splits hres.splits)
  from out have "r = r0" "e = None" "w = int (length input) \<or> IgnoreUnconsumedTail (ParserOptions g)"
    by (auto simp: afterApply_def split: if_splits option.splits)
  with names tr run show ?thesis by auto
qed

text \<open>
  Content of a tree that satisfies the invariant: \<open>computeContent\<close> returns, and the
  content it writes reconstructs to the bytes of the node's range.
\<close>

lemma slice_sub:
  "0 \<le> a \<Longrightarrow> a \<le> b \<Longrightarrow> b \<le> int (length s) \<Longrightarrow> slice s a b = Some (sub s a b)"
  by (simp add: slice_def sub_def)

lemma sub_append:
  assumes "0 \<le> a" "a \<le> b" "b \<le> c"
  shows "sub s a b @ sub s b c = sub s a c"
proof -
  let ?xs = "drop (nat a) s"
  from assms have d: "drop (nat b) s = drop (nat (b - a)) ?xs"
    by (simp add: nat_diff_distrib)
  from assms have n: "nat (b - a) + nat (c - b) = nat (c - a)" by simp
  have "take (nat (b - a)) ?xs @ take (nat (c - b)) (drop (nat (b - a)) ?xs)
        = take (nat (b - a) + nat (c - b)) ?xs"
    by (simp add: take_add)
  with d n show ?thesis by (simp add: sub_def)
qed

lemma sub_empty [simp]: "sub s a a = []"
  by (simp add: sub_def)

lemma roundtrip_aux:
  shows "nodeInRange (int (length src)) n \<Longrightarrow> fresh n \<Longrightarrow> 0 \<le> pos \<Longrightarrow> pos \<le> Pos n \<Longrightarrow>
         \<exists>n' row' col'. computeContent src n pos row col = Some (n', row', col') \<and>
            (\<forall>buf. reconstructContent n' buf = (None, buf @ sub src (Pos n) (Pos n + Len n)))"
    and "childrenInOrder (int (length src)) pos hi chs \<Longrightarrow> list_all fresh chs \<Longrightarrow> 0 \<le> pos \<Longrightarrow> pos \<le> hi \<Longrightarrow>
         hi \<le> int (length src) \<Longrightarrow>
         \<exists>chs' pieces pos' row' col'.
            computeChildren src chs pos row col = Some (chs', pieces, pos', row', col') \<and>
            pos \<le> pos' \<and> pos' \<le> hi \<and> length pieces = length chs \<and> length chs' = length chs \<and>
            (\<forall>more buf. reconstructChildren (pieces @ more) chs' buf = buf @ sub src pos pos')"
proof (induction src n pos row col and src chs pos row col arbitrary: and hi
    rule: computeContent_computeChildren.induct)
  case (1 src l t c p len row0 col0 chs e a ta pos row col)
  let ?n = "Node l t c p len row0 col0 chs e a ta"
  from "1.prems" have rng: "0 \<le> p" "0 \<le> len" "p + len \<le> int (length src)"
    and ord: "childrenInOrder (int (length src)) p (p + len) chs"
    and fr: "c = []" "list_all fresh chs" and pp: "0 \<le> pos" "pos \<le> p"
    by auto
  from pp rng have s0: "slice src pos p = Some (sub src pos p)"
    by (intro slice_sub) auto
  obtain row1 col1 where rc1: "countRowCol (sub src pos p) row col = (row1, col1)"
    by (cases "countRowCol (sub src pos p) row col")
  from "1.IH" [OF s0 rc1 [symmetric] ord fr(2) rng(1)] rng
  obtain chs' pieces pos' row2 col2 where
    cc: "computeChildren src chs p row1 col1 = Some (chs', pieces, pos', row2, col2)"
    and b: "p \<le> pos'" "pos' \<le> p + len" "length pieces = length chs" "length chs' = length chs"
    and rec: "\<And>more buf. reconstructChildren (pieces @ more) chs' buf = buf @ sub src p pos'"
    by auto
  from b rng have s1: "slice src pos' (p + len) = Some (sub src pos' (p + len))"
    by (intro slice_sub) auto
  obtain row3 col3 where rc3: "countRowCol (sub src pos' (p + len)) row2 col2 = (row3, col3)"
    by (cases "countRowCol (sub src pos' (p + len)) row2 col2")
  let ?piece = "sub src pos' (p + len)"
  let ?n' = "Node l t (c @ pieces @ [?piece]) p len row1 col1 chs' e a ta"
  from s0 rc1 cc s1 rc3 have out: "computeContent src ?n pos row col = Some (?n', row3, col3)"
    by simp
  have "reconstructContent ?n' buf = (None, buf @ sub src p (p + len))" for buf
  proof -
    from rec [of "[?piece]" buf] b fr sub_append [of p pos' "p + len" src] rng
    show ?thesis by (simp add: nth_append)
  qed
  with out show ?case by simp
next
  case (2 src pos row col)
  then show ?case by simp
next
  case (3 src ch chs pos row col)
  from "3.prems" have lo: "pos \<le> Pos ch" and hi1: "Pos ch + Len ch \<le> hi"
    and nr: "nodeInRange (int (length src)) ch"
    and ord: "childrenInOrder (int (length src)) (Pos ch + Len ch) hi chs"
    and fr: "fresh ch" "list_all fresh chs" and pp: "0 \<le> pos" "hi \<le> int (length src)"
    by auto
  from nr have len0: "0 \<le> Len ch" by (cases ch) simp
  from lo pp hi1 len0 have s0: "slice src pos (Pos ch) = Some (sub src pos (Pos ch))"
    by (intro slice_sub) auto
  obtain row1 col1 where rc1: "countRowCol (sub src pos (Pos ch)) row col = (row1, col1)"
    by (cases "countRowCol (sub src pos (Pos ch)) row col")
  from "3.IH"(1) [OF s0 rc1 [symmetric] nr fr(1)] nr lo pp
  obtain ch' row2 col2 where
    c1: "computeContent src ch (Pos ch) row1 col1 = Some (ch', row2, col2)"
    and rec1: "\<And>buf. reconstructContent ch' buf = (None, buf @ sub src (Pos ch) (Pos ch + Len ch))"
    by auto
  from "3.IH"(2) [OF s0 rc1 [symmetric] c1 refl refl ord fr(2)] lo pp hi1 len0
  obtain chs' pieces pos' row3 col3 where
    c2: "computeChildren src chs (Pos ch + Len ch) row2 col2
           = Some (chs', pieces, pos', row3, col3)"
    and b: "Pos ch + Len ch \<le> pos'" "pos' \<le> hi" "length pieces = length chs"
      "length chs' = length chs"
    and rec2: "\<And>more buf. reconstructChildren (pieces @ more) chs' buf
                 = buf @ sub src (Pos ch + Len ch) pos'"
    by auto
  from s0 rc1 c1 c2 have out:
    "computeChildren src (ch # chs) pos row col
       = Some (ch' # chs', sub src pos (Pos ch) # pieces, pos', row3, col3)"
    by simp
  have "reconstructChildren ((sub src pos (Pos ch) # pieces) @ more) (ch' # chs') buf
          = buf @ sub src pos pos'" for more buf
  proof -
    have "sub src pos (Pos ch) @ sub src (Pos ch) (Pos ch + Len ch) @ sub src (Pos ch + Len ch) pos'
            = sub src pos pos'"
      using sub_append [of pos "Pos ch" "Pos ch + Len ch" src]
        sub_append [of pos "Pos ch + Len ch" pos' src] lo pp len0 b
      by (metis append.assoc le_add_same_cancel1 order_trans)
    with rec1 rec2 show ?thesis by simp
  qed
  with out b lo len0 show ?case by auto
qed

lemma gPlain_plain: "plainGrammar gPlain"
  by (auto simp: plainGrammar_def ran_def gPlain_def rulePlainA_def rulePlainB_def
      split: if_splits)

lemma gPlain_parse:
  "\<exists>r. Parse E0 (Suc (Suc 0)) gPlain ''xxy'' = Some (PRet (Some r) None) \<and>
        Tree r = Some plainTree"
  by (simp add: Parse_def afterApply_def handler_defs state_defs repeatLoop.simps gPlain_def
      rulePlainA_def rulePlainB_def defaultOptions_def plainTree_def)

text \<open>
  The tree of a successful parse with a plain grammar satisfies the invariant of parse
  trees: every node lies within the input, and the children of each node lie within
  the node's range, in order and without overlap.
\<close>

theorem Parse_tree_ordered:
  assumes "plainGrammar g"
    and "Parse E n g input = Some (PRet (Some r) None)"
  shows "\<exists>t. Tree r = Some t \<and> nodeInRange (int (length input)) t"
proof -
  from Parse_success [OF assms(2)] obtain topRule tr w where
    tr: "Rules g topRule = Some tr"
    and run: "Result_apply (ruleHandler E g n tr) (Ident tr) (newResult g input) 0
             = Some (Ret w None r)" by blast
  from tr have "tr \<in> ran (Rules g)" by (auto simp: ran_def)
  from top_apply_ordered [OF ruleHandler_tidy [OF assms(1) this] run] show ?thesis by blast
qed

theorem Parse_tree_ordered_witness:
  "plainGrammar gPlain \<and>
   (\<exists>r. Parse E0 (Suc (Suc 0)) gPlain ''xxy'' = Some (PRet (Some r) None) \<and>
        Tree r = Some plainTree \<and> nodeInRange (int (length ''xxy'')) plainTree)"
proof -
  from gPlain_parse obtain r where
    r: "Parse E0 (Suc (Suc 0)) gPlain ''xxy'' = Some (PRet (Some r) None)"
    and t: "Tree r = Some plainTree" by blast
  from Parse_tree_ordered [OF gPlain_plain r] t gPlain_plain r show ?thesis by auto
qed

text \<open>
  Round trip for plain grammars: after a successful parse without
  \<open>IgnoreUnconsumedTail\<close> (the default), \<open>ComputeContent\<close> returns and
  \<open>ReconstructContent\<close> of the tree is the input. The statement is about the
  reconstructed text. A memoized node of width 0 can be attached twice; the code then
  appends to the \<open>Content\<close> of that one node object on both visits and its
  reconstruction writes nothing, where the model writes the content of each occurrence
  once and reconstructs the empty text: the text of the root is the same, the
  \<open>Content\<close> lists of such a node are not.
\<close>

theorem Parse_round_trip:
  assumes "plainGrammar g"
    and "\<not> IgnoreUnconsumedTail (ParserOptions g)"
    and "Parse E n g input = Some (PRet (Some r) None)"
  shows "\<exists>r' t. ComputeContent r = Some r' \<and> Tree r' = Some t \<and>
           ReconstructContent t = Inr input"
proof -
  from Parse_success [OF assms(3)] assms(2) obtain topRule tr where
    tr: "Rules g topRule = Some tr"
    and run: "Result_apply (ruleHandler E g n tr) (Ident tr) (newResult g input) 0
             = Some (Ret (int (length input)) None r)" by auto
  from tr have "tr \<in> ran (Rules g)" by (auto simp: ran_def)
  from top_apply_ordered [OF ruleHandler_tidy [OF assms(1) this] run] obtain t where
    t: "Tree r = Some t" "nodeInRange (int (length input)) t" "fresh t" "Pos t = 0"
      "Len t = int (length input)" "Source r = input" by blast
  from roundtrip_aux(1) [OF t(2,3), of 0 1 0] t(4) obtain t' row col where
    c: "computeContent input t 0 1 0 = Some (t', row, col)"
    and rec: "reconstructContent t' [] = (None, [] @ sub input (Pos t) (Pos t + Len t))"
    by auto
  have "sub input 0 (int (length input)) = input" by (simp add: sub_def)
  with rec t have "ReconstructContent t' = Inr input" by (simp add: ReconstructContent_def)
  with c t show ?thesis by (simp add: ComputeContent_def)
qed

theorem Parse_round_trip_witness:
  "plainGrammar gPlain \<and> \<not> IgnoreUnconsumedTail (ParserOptions gPlain) \<and>
   (\<exists>r r' t. Parse E0 (Suc (Suc 0)) gPlain ''xxy'' = Some (PRet (Some r) None) \<and>
        ComputeContent r = Some r' \<and> Tree r' = Some t \<and> ReconstructContent t = Inr ''xxy'')"
proof -
  from gPlain_parse obtain r where
    r: "Parse E0 (Suc (Suc 0)) gPlain ''xxy'' = Some (PRet (Some r) None)" by blast
  have o: "\<not> IgnoreUnconsumedTail (ParserOptions gPlain)"
    by (simp add: gPlain_def defaultOptions_def)
  from Parse_round_trip [OF gPlain_plain o r] gPlain_plain o r show ?thesis by blast
qed

end
